theory Spec2Isabelle
  imports Main "HOL-Library.Word" "HOL-Library.Multiset"
begin

chapter \<open>The sampling and scheduling core of the KawaiiMiao renderer\<close>

text \<open>
  A shallow embedding of three source files: the sampler (\<open>Sampler\<close> and
  \<open>RandomSampler\<close>, stored in Core/Scene.h from line 44 on), the work scheduler
  (Tool/Parallel.h) and the Lambertian material (Materials/LambertianMaterial.cpp).
  The first part holds the definitions, in the order of the sources; the second part
  holds what is proved about them.
\<close>

section \<open>Machine types\<close>

text \<open>
  \<open>size_t\<close> is a 64-bit unsigned word, \<open>int\<close> a 32-bit and \<open>int64_t\<close> a 64-bit
  two's-complement word (read with \<open>sint\<close>, compared with \<open><s\<close>). A \<open>Float\<close> is
  kept as its bit pattern: the sampler only stores and copies floats, it never
  computes with them. Indices into \<open>std::vector\<close>s are natural numbers; a read
  outside the vector is undefined behaviour in the source and an explicit
  \<open>OutOfBounds\<close> failure here.
\<close>

type_synonym size_t = "64 word"
type_synonym int32 = "32 word"
type_synonym int64 = "64 word"
type_synonym Float = "32 word"
type_synonym Vector2f = "Float \<times> Float"
type_synonym Vector2i = "int32 \<times> int32"

text \<open>
  Modelled from the spec: the macros \<open>CHECK_EQ\<close>, \<open>CHECK_LT\<close> and \<open>DCHECK\<close> are
  defined in Rendering.h, which is not part of the sources at hand. The spec (section 7)
  describes them as assertive preconditions whose failure is fatal, so a failed
  \<open>CHECK_*\<close> ends the call with \<open>CheckFailed\<close>. \<open>DCHECK\<close> is a debug-build
  assertion: the functions that use it take the build flavour as a parameter.
\<close>

datatype fatal = CheckFailed | OutOfBounds | BadAlloc

section \<open>Sampler (the Sampler.cpp part of Core/Scene.h, lines 44 to 160)\<close>

record Sampler =
  samplesPerPixel :: int64
  m_currentPixel :: Vector2i
  m_currentPixelSampleIndex :: int64
  m_samples1DArraySizes :: "int32 list"
  m_samples2DArraySizes :: "int32 list"
  m_sampleArray1D :: "Float list list"
  m_sampleArray2D :: "Vector2f list list"
  m_array1DOffset :: nat
  m_array2DOffset :: nat

text \<open>\<open>RandomSampler\<close> derives from \<open>Sampler\<close> and adds the generator \<open>m_rng\<close>. The
  class \<open>Rng\<close> is not part of the sources at hand: its state is the type parameter
  \<open>'r\<close>, and its two operations used here, \<open>uniformFloat\<close> and \<open>setSequence\<close>, are
  parameters of the functions that call them.\<close>

record 'r RandomSampler = Sampler +
  m_rng :: 'r

text \<open>A pointer into one of the registered buffers: which buffer, and the index of
  the element pointed at.\<close>

record view =
  v_array :: nat
  v_first :: nat

definition Sampler_startPixel :: "Vector2i \<Rightarrow> 'a Sampler_scheme \<Rightarrow> 'a Sampler_scheme" where
  "Sampler_startPixel p s =
     s\<lparr>m_currentPixel := p,
       m_currentPixelSampleIndex := 0,
       m_array2DOffset := 0,
       m_array1DOffset := 0\<rparr>"

text \<open>\<open>++m_currentPixelSampleIndex\<close> on an \<open>int64_t\<close>: the increment is taken modulo
  \<open>2^64\<close> (signed overflow is undefined in the source; two's-complement hardware
  wraps), the comparison is signed.\<close>

definition startNextSample :: "'a Sampler_scheme \<Rightarrow> bool \<times> 'a Sampler_scheme" where
  "startNextSample s =
     (let s1 = s\<lparr>m_array2DOffset := 0, m_array1DOffset := 0\<rparr>;
          s2 = s1\<lparr>m_currentPixelSampleIndex := m_currentPixelSampleIndex s1 + 1\<rparr>
      in (m_currentPixelSampleIndex s2 <s samplesPerPixel s2, s2))"

definition setSampleNumber :: "int64 \<Rightarrow> 'a Sampler_scheme \<Rightarrow> bool \<times> 'a Sampler_scheme" where
  "setSampleNumber sampleNum s =
     (let s1 = s\<lparr>m_array2DOffset := 0, m_array1DOffset := 0\<rparr>;
          s2 = s1\<lparr>m_currentPixelSampleIndex := sampleNum\<rparr>
      in (m_currentPixelSampleIndex s2 <s samplesPerPixel s2, s2))"

text \<open>\<open>std::vector<T>(n * samplesPerPixel)\<close>: the product is an \<open>int64_t\<close>; a negative
  count (a huge \<open>size_t\<close>) or one that does not fit makes the allocation throw.
  \<open>roundCount\<close> is a virtual function declared in Sampler.h (not at hand) and is a
  parameter.\<close>

definition request1DArray ::
  "(int32 \<Rightarrow> int32) \<Rightarrow> int32 \<Rightarrow> 'a Sampler_scheme \<Rightarrow> fatal + 'a Sampler_scheme" where
  "request1DArray roundCount n s =
     (if roundCount n \<noteq> n then Inl CheckFailed
      else let count = sint n * sint (samplesPerPixel s)
           in if count < 0 \<or> 2 ^ 63 \<le> count then Inl BadAlloc
              else Inr (s\<lparr>m_samples1DArraySizes := m_samples1DArraySizes s @ [n],
                         m_sampleArray1D := m_sampleArray1D s @ [replicate (nat count) 0]\<rparr>))"

definition request2DArray ::
  "(int32 \<Rightarrow> int32) \<Rightarrow> int32 \<Rightarrow> 'a Sampler_scheme \<Rightarrow> fatal + 'a Sampler_scheme" where
  "request2DArray roundCount n s =
     (if roundCount n \<noteq> n then Inl CheckFailed
      else let count = sint n * sint (samplesPerPixel s)
           in if count < 0 \<or> 2 ^ 63 \<le> count then Inl BadAlloc
              else Inr (s\<lparr>m_samples2DArraySizes := m_samples2DArraySizes s @ [n],
                         m_sampleArray2D := m_sampleArray2D s @ [replicate (nat count) (0, 0)]\<rparr>))"

text \<open>\<open>get1DArray\<close> returns \<open>nullptr\<close> (\<open>None\<close>) or the address of element
  \<open>m_currentPixelSampleIndex * n\<close> of the buffer under the cursor, and advances the
  cursor. The three vector reads are checked: outside the vector the source is
  undefined, the model fails with \<open>OutOfBounds\<close>.\<close>

definition get1DArray ::
  "int32 \<Rightarrow> 'a Sampler_scheme \<Rightarrow> fatal + (view option \<times> 'a Sampler_scheme)" where
  "get1DArray n s =
     (if m_array1DOffset s = length (m_sampleArray1D s) then Inr (None, s)
      else if \<not> m_array1DOffset s < length (m_samples1DArraySizes s) then Inl OutOfBounds
      else if m_samples1DArraySizes s ! m_array1DOffset s \<noteq> n then Inl CheckFailed
      else if \<not> m_currentPixelSampleIndex s <s samplesPerPixel s then Inl CheckFailed
      else if \<not> m_array1DOffset s < length (m_sampleArray1D s) then Inl OutOfBounds
      else let pos = sint (m_currentPixelSampleIndex s) * sint n
           in if pos < 0 \<or> int (length (m_sampleArray1D s ! m_array1DOffset s)) \<le> pos
              then Inl OutOfBounds
              else Inr (Some \<lparr>v_array = m_array1DOffset s, v_first = nat pos\<rparr>,
                        s\<lparr>m_array1DOffset := m_array1DOffset s + 1\<rparr>))"

definition get2DArray ::
  "int32 \<Rightarrow> 'a Sampler_scheme \<Rightarrow> fatal + (view option \<times> 'a Sampler_scheme)" where
  "get2DArray n s =
     (if m_array2DOffset s = length (m_sampleArray2D s) then Inr (None, s)
      else if \<not> m_array2DOffset s < length (m_samples2DArraySizes s) then Inl OutOfBounds
      else if m_samples2DArraySizes s ! m_array2DOffset s \<noteq> n then Inl CheckFailed
      else if \<not> m_currentPixelSampleIndex s <s samplesPerPixel s then Inl CheckFailed
      else if \<not> m_array2DOffset s < length (m_sampleArray2D s) then Inl OutOfBounds
      else let pos = sint (m_currentPixelSampleIndex s) * sint n
           in if pos < 0 \<or> int (length (m_sampleArray2D s ! m_array2DOffset s)) \<le> pos
              then Inl OutOfBounds
              else Inr (Some \<lparr>v_array = m_array2DOffset s, v_first = nat pos\<rparr>,
                        s\<lparr>m_array2DOffset := m_array2DOffset s + 1\<rparr>))"

section \<open>RandomSampler (same file)\<close>

definition RandomSampler_get1D ::
  "('r \<Rightarrow> Float \<times> 'r) \<Rightarrow> 'r RandomSampler \<Rightarrow> fatal + (Float \<times> 'r RandomSampler)" where
  "RandomSampler_get1D uniformFloat s =
     (if \<not> m_currentPixelSampleIndex s <s samplesPerPixel s then Inl CheckFailed
      else case uniformFloat (m_rng s) of (x, r) \<Rightarrow> Inr (x, s\<lparr>m_rng := r\<rparr>))"

text \<open>The two draws of \<open>get2D\<close> stand in a braced initialiser list, which evaluates
  left to right: the first draw is the first component.\<close>

definition RandomSampler_get2D ::
  "('r \<Rightarrow> Float \<times> 'r) \<Rightarrow> 'r RandomSampler \<Rightarrow> fatal + (Vector2f \<times> 'r RandomSampler)" where
  "RandomSampler_get2D uniformFloat s =
     (if \<not> m_currentPixelSampleIndex s <s samplesPerPixel s then Inl CheckFailed
      else case uniformFloat (m_rng s) of (x, r) \<Rightarrow>
           (case uniformFloat r of (y, r') \<Rightarrow> Inr ((x, y), s\<lparr>m_rng := r'\<rparr>)))"

definition clone :: "(int32 \<Rightarrow> 'r \<Rightarrow> 'r) \<Rightarrow> int32 \<Rightarrow> 'r RandomSampler \<Rightarrow> 'r RandomSampler" where
  "clone setSequence seed s = s\<lparr>m_rng := setSequence seed (m_rng s)\<rparr>"

text \<open>The nested \<open>for\<close> statements of \<open>RandomSampler::startPixel\<close>: the inner one
  runs over the slots \<open>j\<close> of one buffer, the outer one over the buffers \<open>i\<close>.\<close>

function fill1D_row ::
  "('r \<Rightarrow> Float \<times> 'r) \<Rightarrow> nat \<Rightarrow> Float list \<Rightarrow> 'r \<Rightarrow> Float list \<times> 'r" where
  "fill1D_row uniformFloat j row r =
     (if j < length row
      then (case uniformFloat r of (x, r') \<Rightarrow> fill1D_row uniformFloat (Suc j) (row[j := x]) r')
      else (row, r))"
  by pat_completeness auto
termination
  by (relation "measure (\<lambda>(u, j, row, r). length row - j)") auto

function fill1D ::
  "('r \<Rightarrow> Float \<times> 'r) \<Rightarrow> nat \<Rightarrow> Float list list \<Rightarrow> 'r \<Rightarrow> Float list list \<times> 'r" where
  "fill1D uniformFloat i arrs r =
     (if i < length arrs
      then (case fill1D_row uniformFloat 0 (arrs ! i) r of
              (row, r') \<Rightarrow> fill1D uniformFloat (Suc i) (arrs[i := row]) r')
      else (arrs, r))"
  by pat_completeness auto
termination
  by (relation "measure (\<lambda>(u, i, arrs, r). length arrs - i)") auto

function fill2D_row ::
  "('r \<Rightarrow> Float \<times> 'r) \<Rightarrow> nat \<Rightarrow> Vector2f list \<Rightarrow> 'r \<Rightarrow> Vector2f list \<times> 'r" where
  "fill2D_row uniformFloat j row r =
     (if j < length row
      then (case uniformFloat r of (x, r1) \<Rightarrow>
             (case uniformFloat r1 of (y, r') \<Rightarrow>
                fill2D_row uniformFloat (Suc j) (row[j := (x, y)]) r'))
      else (row, r))"
  by pat_completeness auto
termination
  by (relation "measure (\<lambda>(u, j, row, r). length row - j)") auto

function fill2D ::
  "('r \<Rightarrow> Float \<times> 'r) \<Rightarrow> nat \<Rightarrow> Vector2f list list \<Rightarrow> 'r \<Rightarrow> Vector2f list list \<times> 'r" where
  "fill2D uniformFloat i arrs r =
     (if i < length arrs
      then (case fill2D_row uniformFloat 0 (arrs ! i) r of
              (row, r') \<Rightarrow> fill2D uniformFloat (Suc i) (arrs[i := row]) r')
      else (arrs, r))"
  by pat_completeness auto
termination
  by (relation "measure (\<lambda>(u, i, arrs, r). length arrs - i)") auto

declare fill1D_row.simps [simp del] fill1D.simps [simp del]
  fill2D_row.simps [simp del] fill2D.simps [simp del]

definition RandomSampler_startPixel ::
  "('r \<Rightarrow> Float \<times> 'r) \<Rightarrow> Vector2i \<Rightarrow> 'r RandomSampler \<Rightarrow> 'r RandomSampler" where
  "RandomSampler_startPixel uniformFloat p s =
     (case fill1D uniformFloat 0 (m_sampleArray1D s) (m_rng s) of (a1, r1) \<Rightarrow>
        (case fill2D uniformFloat 0 (m_sampleArray2D s) r1 of (a2, r2) \<Rightarrow>
           Sampler_startPixel p (s\<lparr>m_sampleArray1D := a1, m_sampleArray2D := a2, m_rng := r2\<rparr>)))"

text \<open>The stream of a generator: \<open>draws u k r\<close> are the \<open>k\<close> values that \<open>k\<close>
  successive calls of \<open>uniformFloat\<close> return from state \<open>r\<close>, and \<open>advance u k r\<close> is
  the state they leave. \<open>flatten2\<close> lists the components of 2D samples in storage
  order.\<close>

fun draws :: "('r \<Rightarrow> Float \<times> 'r) \<Rightarrow> nat \<Rightarrow> 'r \<Rightarrow> Float list" where
  "draws u 0 r = []"
| "draws u (Suc k) r = (case u r of (x, r') \<Rightarrow> x # draws u k r')"

fun advance :: "('r \<Rightarrow> Float \<times> 'r) \<Rightarrow> nat \<Rightarrow> 'r \<Rightarrow> 'r" where
  "advance u 0 r = r"
| "advance u (Suc k) r = (case u r of (x, r') \<Rightarrow> advance u k r')"

definition flatten2 :: "Vector2f list \<Rightarrow> Float list" where
  "flatten2 vs = concat (map (\<lambda>(x, y). [x, y]) vs)"

section \<open>A client of the sampler\<close>

text \<open>A renderer drives one \<open>RandomSampler\<close> object through a sequence of calls of
  its public interface; the virtual calls resolve to the \<open>RandomSampler\<close>
  overrides. \<open>drive\<close> runs such a sequence, collects what each call returns and stops
  at the first fatal failure. A returned array pointer is recorded as the \<open>view\<close> it
  points to.\<close>

datatype call =
    Request1DArray int32 | Request2DArray int32
  | StartPixel Vector2i | StartNextSample | SetSampleNumber int64
  | Get1D | Get2D | Get1DArray int32 | Get2DArray int32

datatype reply = RVoid | RBool bool | RFloat Float | RVector2f Vector2f | RPointer "view option"

fun invoke ::
  "(int32 \<Rightarrow> int32) \<Rightarrow> ('r \<Rightarrow> Float \<times> 'r) \<Rightarrow> call \<Rightarrow> 'r RandomSampler
     \<Rightarrow> fatal + (reply \<times> 'r RandomSampler)" where
  "invoke rc u (Request1DArray n) s = map_sum id (Pair RVoid) (request1DArray rc n s)"
| "invoke rc u (Request2DArray n) s = map_sum id (Pair RVoid) (request2DArray rc n s)"
| "invoke rc u (StartPixel p) s = Inr (RVoid, RandomSampler_startPixel u p s)"
| "invoke rc u StartNextSample s = Inr (map_prod RBool id (startNextSample s))"
| "invoke rc u (SetSampleNumber k) s = Inr (map_prod RBool id (setSampleNumber k s))"
| "invoke rc u Get1D s = map_sum id (map_prod RFloat id) (RandomSampler_get1D u s)"
| "invoke rc u Get2D s = map_sum id (map_prod RVector2f id) (RandomSampler_get2D u s)"
| "invoke rc u (Get1DArray n) s = map_sum id (map_prod RPointer id) (get1DArray n s)"
| "invoke rc u (Get2DArray n) s = map_sum id (map_prod RPointer id) (get2DArray n s)"

fun drive ::
  "(int32 \<Rightarrow> int32) \<Rightarrow> ('r \<Rightarrow> Float \<times> 'r) \<Rightarrow> call list \<Rightarrow> 'r RandomSampler
     \<Rightarrow> fatal + (reply list \<times> 'r RandomSampler)" where
  "drive rc u [] s = Inr ([], s)"
| "drive rc u (c # cs) s =
     (case invoke rc u c s of
        Inl e \<Rightarrow> Inl e
      | Inr (x, s') \<Rightarrow>
          (case drive rc u cs s' of
             Inl e \<Rightarrow> Inl e
           | Inr (xs, s'') \<Rightarrow> Inr (x # xs, s'')))"

text \<open>The calls of one pixel sample in the array protocol of the spec's section 8 (one
  registered 1D array of size 4, one 2D array of size 2, each requested twice), the
  values they return in sample \<open>k\<close>, and the sampler states in which sample \<open>k\<close>
  starts.\<close>

definition pass_calls :: "call list" where
  "pass_calls = [Get1DArray 4, Get2DArray 2, Get1DArray 4, Get2DArray 2, StartNextSample]"

definition pass_replies :: "nat \<Rightarrow> reply list" where
  "pass_replies k =
     [RPointer (Some \<lparr>v_array = 0, v_first = 4 * k\<rparr>),
      RPointer (Some \<lparr>v_array = 0, v_first = 2 * k\<rparr>),
      RPointer None, RPointer None, RBool (Suc k < 8)]"

definition protocol_state :: "nat \<Rightarrow> 'r RandomSampler \<Rightarrow> bool" where
  "protocol_state k t \<longleftrightarrow>
     samplesPerPixel t = 8 \<and> m_samples1DArraySizes t = [4] \<and> m_samples2DArraySizes t = [2] \<and>
     map length (m_sampleArray1D t) = [32] \<and> map length (m_sampleArray2D t) = [16] \<and>
     m_currentPixelSampleIndex t = of_nat k \<and> m_array1DOffset t = 0 \<and> m_array2DOffset t = 0"

text \<open>Two samplers agree on their registration when they were built with the same
  \<open>samplesPerPixel\<close> and the same sequence of \<open>request1DArray\<close>/\<open>request2DArray\<close>
  calls: same recorded sizes, same buffer sizes. Buffer contents, cursors, current
  pixel and sample index may differ.\<close>

definition same_registration :: "'r RandomSampler \<Rightarrow> 'r RandomSampler \<Rightarrow> bool" where
  "same_registration a b \<longleftrightarrow>
     samplesPerPixel a = samplesPerPixel b \<and>
     m_samples1DArraySizes a = m_samples1DArraySizes b \<and>
     m_samples2DArraySizes a = m_samples2DArraySizes b \<and>
     map length (m_sampleArray1D a) = map length (m_sampleArray1D b) \<and>
     map length (m_sampleArray2D a) = map length (m_sampleArray2D b)"

text \<open>Concrete inputs for the instances below: a generator that counts, a reseeding
  that forgets the old state, a sampler before any registration and two samplers
  with the same registration in different states.\<close>

definition counter_rng :: "nat \<Rightarrow> Float \<times> nat" where
  "counter_rng r = (word_of_nat r, Suc r)"

definition reseed :: "int32 \<Rightarrow> nat \<Rightarrow> nat" where
  "reseed seed r = unat seed"

definition fresh_sampler :: "nat RandomSampler" where
  "fresh_sampler =
     \<lparr>samplesPerPixel = 8, m_currentPixel = (0, 0), m_currentPixelSampleIndex = 0,
      m_samples1DArraySizes = [], m_samples2DArraySizes = [],
      m_sampleArray1D = [], m_sampleArray2D = [],
      m_array1DOffset = 0, m_array2DOffset = 0, m_rng = 0\<rparr>"

definition used_sampler :: "nat RandomSampler" where
  "used_sampler =
     \<lparr>samplesPerPixel = 2, m_currentPixel = (4, 7), m_currentPixelSampleIndex = 1,
      m_samples1DArraySizes = [1], m_samples2DArraySizes = [1],
      m_sampleArray1D = [ [11, 12] ], m_sampleArray2D = [ [(13, 14), (15, 16)] ],
      m_array1DOffset = 0, m_array2DOffset = 1, m_rng = 40\<rparr>"

definition other_sampler :: "nat RandomSampler" where
  "other_sampler =
     \<lparr>samplesPerPixel = 2, m_currentPixel = (1, 1), m_currentPixelSampleIndex = 0,
      m_samples1DArraySizes = [1], m_samples2DArraySizes = [1],
      m_sampleArray1D = [ [0, 0] ], m_sampleArray2D = [ [(0, 0), (0, 0)] ],
      m_array1DOffset = 1, m_array2DOffset = 0, m_rng = 99\<rparr>"

section \<open>Scheduler (Tool/Parallel.h)\<close>

datatype ExecutionPolicy = SERIAL | PARALLEL

text \<open>\<open>numSystemCores\<close> takes the unsigned maximum of \<open>1u\<close> and
  \<open>std::thread::hardware_concurrency()\<close> (the argument here) and returns it as an
  \<open>int\<close>: the same 32 bits, read as signed from then on.\<close>

definition numSystemCores :: "32 word \<Rightarrow> int32" where
  "numSystemCores hardware_concurrency = max 1 hardware_concurrency"

text \<open>The callback is user code. A run is described by the invocations it receives:
  which thread made the call, and with which argument.\<close>

datatype thread = Caller | Worker nat

text \<open>How a call of the scheduler ends: it returns (all workers joined) with the list
  of callback invocations made, it is aborted by a failed \<open>DCHECK\<close>, or, for a
  schedule that stops before every worker has finished, it is still blocked in
  \<open>join\<close> with the invocations made so far.\<close>

datatype 'c outcome = Returned 'c | Aborted | Blocked 'c | NotASchedule

text \<open>\<open>for (int v = a; v < b; ++v)\<close>: the values \<open>v\<close> takes, in order.\<close>

function int_range :: "int32 \<Rightarrow> int32 \<Rightarrow> int32 list" where
  "int_range v b = (if v <s b then v # int_range (v + 1) b else [])"
  by pat_completeness auto
termination
proof (relation "measure (\<lambda>(v, b). nat (sint b - sint v))")
  show "wf (measure (\<lambda>(v, b). nat (sint b - sint v)))" by simp
next
  fix v b :: int32
  assume "v <s b"
  then have lt: "sint v < sint b" by (simp add: word_sless_alt)
  moreover have "sint b < 2 ^ 31" using sint_lt[of b] by simp
  moreover have "- (2 ^ 31) \<le> sint v" using sint_ge[of v] by simp
  ultimately have "sint (v + 1) = sint v + 1"
    using lt by (simp add: sint_word_add signed_take_bit_int_eq_self)
  with lt show "((v + 1, b), (v, b)) \<in> measure (\<lambda>(v, b). nat (sint b - sint v))"
    by simp
qed

declare int_range.simps [simp del]

text \<open>\<open>for (auto i = start; i < end; ++i)\<close> on \<open>size_t\<close>.\<close>

function size_range :: "size_t \<Rightarrow> size_t \<Rightarrow> size_t list" where
  "size_range i e = (if i < e then i # size_range (i + 1) e else [])"
  by pat_completeness auto
termination
proof (relation "measure (\<lambda>(i, e). unat e - unat i)")
  show "wf (measure (\<lambda>(i, e). unat e - unat i))" by simp
next
  fix i e :: size_t
  assume lt: "i < e"
  then have "unat i < unat e" by (simp add: word_less_nat_alt)
  moreover have "unat e < 2 ^ LENGTH(64)" by (rule unsigned_less)
  ultimately have "unat i + unat (1 :: size_t) < 2 ^ LENGTH(64)" by simp
  then have "unat (i + 1) = unat i + unat (1 :: size_t)"
    by (simp only: unat_add_lem)
  with lt show "((i + 1, e), (i, e)) \<in> measure (\<lambda>(i, e). unat e - unat i)"
    by (simp add: word_less_nat_alt)
qed

declare size_range.simps [simp del]

subsection \<open>Static split: \<open>AParallelUtils::parallel_for\<close>\<close>

text \<open>The lambda \<open>inner_loop\<close>, with the three captured constants as arguments: the
  callback arguments of the thread \<open>thread_index\<close>, in order. All arithmetic is
  \<open>int\<close> arithmetic; \<open>std::max(x, 0)\<close> is the signed maximum.\<close>

definition inner_loop :: "int32 \<Rightarrow> int32 \<Rightarrow> int32 \<Rightarrow> int32 \<Rightarrow> int32 list" where
  "inner_loop n_threads n_max_tasks_per_thread n_lacking_tasks thread_index =
     (let n_lacking_tasks_so_far =
            (if thread_index - n_threads + n_lacking_tasks <s 0 then 0
             else thread_index - n_threads + n_lacking_tasks);
          inclusive_start_index = thread_index * n_max_tasks_per_thread - n_lacking_tasks_so_far;
          exclusive_end_index = inclusive_start_index + n_max_tasks_per_thread
            - (if 0 \<le>s thread_index - n_threads + n_lacking_tasks then 1 else 0)
      in int_range inclusive_start_index exclusive_end_index)"

text \<open>\<open>parallel_for\<close> returns, for each spawned thread in spawning order, the
  callback arguments of that thread (the threads run concurrently; each list is in
  the order of that thread's calls). \<open>n_task / n_threads\<close> and \<open>n_task % n_threads\<close>
  are \<open>size_t\<close> operations on the sign-extended \<open>n_threads\<close>; the initialisers of
  the two \<open>const int\<close> are truncated to 32 bits.\<close>

definition parallel_for :: "bool \<Rightarrow> 32 word \<Rightarrow> size_t \<Rightarrow> size_t \<Rightarrow> int32 list list outcome" where
  "parallel_for debug hardware_concurrency start end =
     (if debug \<and> \<not> start < end then Aborted
      else let n_threads = numSystemCores hardware_concurrency;
               n_task = end - start;
               n_max_tasks_per_thread =
                 (ucast (n_task div scast n_threads
                          + (if n_task mod scast n_threads = 0 then 0 else 1)) :: int32);
               n_lacking_tasks =
                 (ucast (scast (n_max_tasks_per_thread * n_threads) - n_task) :: int32)
           in Returned (map (inner_loop n_threads n_max_tasks_per_thread n_lacking_tasks)
                            (int_range 0 n_threads)))"

subsection \<open>Atomic seize: \<open>AParallelUtils::parallel_for_seize\<close>\<close>

text \<open>A worker thread is about to execute \<open>task_index.fetch_add(1)\<close>, or it holds an
  index below \<open>end\<close> and is about to call \<open>func(index)\<close>, or it has left its loop.
  The shared state is the atomic cursor; \<open>calls\<close> records the callback invocations
  in the order in which they happen.\<close>

datatype worker = Fetching | Calling size_t | Finished

record pool =
  task_index :: size_t
  workers :: "worker list"
  calls :: "(thread \<times> size_t) list"

text \<open>One step of worker \<open>j\<close>. \<open>fetch_add\<close> is atomic: it returns the old value of
  the cursor and stores the old value plus one, modulo \<open>2^64\<close>. A thread that has
  finished (or does not exist) takes no step.\<close>

definition worker_step :: "size_t \<Rightarrow> nat \<Rightarrow> pool \<Rightarrow> pool option" where
  "worker_step end j s =
     (if \<not> j < length (workers s) then None
      else case workers s ! j of
             Fetching \<Rightarrow>
               (let index = task_index s;
                    s' = s\<lparr>task_index := task_index s + 1\<rparr>
                in if index < end
                   then Some (s'\<lparr>workers := (workers s)[j := Calling index]\<rparr>)
                   else Some (s'\<lparr>workers := (workers s)[j := Finished]\<rparr>))
           | Calling index \<Rightarrow>
               Some (s\<lparr>workers := (workers s)[j := Fetching],
                       calls := calls s @ [(Worker j, index)]\<rparr>)
           | Finished \<Rightarrow> None)"

text \<open>The threads interleave: a schedule lists, step by step, which worker moves.\<close>

fun run :: "size_t \<Rightarrow> nat list \<Rightarrow> pool \<Rightarrow> pool option" where
  "run end [] s = Some s"
| "run end (j # js) s =
     (case worker_step end j s of None \<Rightarrow> None | Some s' \<Rightarrow> run end js s')"

definition parallel_for_seize ::
  "bool \<Rightarrow> 32 word \<Rightarrow> nat list \<Rightarrow> size_t \<Rightarrow> size_t \<Rightarrow> (thread \<times> size_t) list outcome" where
  "parallel_for_seize debug hardware_concurrency schedule start end =
     (if debug \<and> \<not> start < end then Aborted
      else let n_threads = numSystemCores hardware_concurrency;
               threads = map (\<lambda>j. Fetching) (int_range 0 n_threads)
           in case run end schedule \<lparr>task_index = start, workers = threads, calls = []\<rparr> of
                None \<Rightarrow> NotASchedule
              | Some s \<Rightarrow> if list_all (\<lambda>w. w = Finished) (workers s)
                          then Returned (calls s) else Blocked (calls s))"

subsection \<open>The entry point: \<open>AParallelUtils::parallelFor\<close>\<close>

definition parallelFor ::
  "bool \<Rightarrow> 32 word \<Rightarrow> nat list \<Rightarrow> size_t \<Rightarrow> size_t \<Rightarrow> ExecutionPolicy
     \<Rightarrow> (thread \<times> size_t) list outcome" where
  "parallelFor debug hardware_concurrency schedule start end policy =
     (if start > end then Returned []
      else if policy = PARALLEL
           then parallel_for_seize debug hardware_concurrency schedule start end
           else Returned (map (Pair Caller) (size_range start end)))"

text \<open>The largest \<open>size_t\<close>.\<close>

definition SIZE_MAX :: size_t where
  "SIZE_MAX = 18446744073709551615"

text \<open>Bookkeeping for the atomic-seize strategy: the indices that workers hold
  between their \<open>fetch_add\<close> and their call of \<open>func\<close>; the number of steps taken
  so far; and the invariant of the pool. With \<open>h\<close> the number of indices handed out
  below \<open>end\<close> and \<open>m\<close> the number of workers that have left their loop, the cursor
  stands at \<open>start + h + m\<close>, the indices handed out are \<open>start, ..., start + h - 1\<close>,
  each of them either processed or held by a worker, and once a worker has left the
  whole range has been handed out.\<close>

definition holding :: "worker \<Rightarrow> size_t list" where
  "holding w = (case w of Calling i \<Rightarrow> [i] | _ \<Rightarrow> [])"

definition in_flight :: "worker list \<Rightarrow> size_t list" where
  "in_flight ws = concat (map holding ws)"

definition progress :: "pool \<Rightarrow> nat" where
  "progress s = 2 * length (calls s) + length (in_flight (workers s))
                + count_list (workers s) Finished"

definition seize_inv :: "size_t \<Rightarrow> size_t \<Rightarrow> pool \<Rightarrow> bool" where
  "seize_inv start e s \<longleftrightarrow>
     (let h = length (calls s) + length (in_flight (workers s));
          m = count_list (workers s) Finished
      in task_index s = start + of_nat (h + m)
         \<and> unat start + h \<le> max (unat start) (unat e)
         \<and> (m = 0 \<or> unat start + h = max (unat start) (unat e))
         \<and> mset (map snd (calls s)) + mset (in_flight (workers s))
             = mset (map (\<lambda>k. start + of_nat k) [0..<h]))"

section \<open>Lambertian material (Materials/LambertianMaterial.cpp)\<close>

text \<open>
  Modelled from the spec: the classes \<open>MemoryArena\<close> (Tool/Memory.h), \<open>BSDF\<close>
  (Core/BSDF.h), \<open>Spectrum\<close> (Core/Spectrum.h) and \<open>SurfaceInteraction\<close>
  (Core/Interaction.h) are not part of the sources at hand. Following the spec's
  sections 3 and 4.3: the arena is a bump allocator, here the list of the objects
  placed in it, an address being a position in that list; \<open>ARENA_ALLOC(arena, T)(args)\<close>
  places a new object behind the ones already there. A \<open>BSDF\<close> is the scattering-model
  container: built from the interaction it is bound to, with no lobes, and \<open>add\<close>
  appends the address of a lobe. A \<open>Spectrum\<close> is opaque (type \<open>'sp\<close>) and its test
  \<open>isBlack\<close> a parameter; so is the geometry of an interaction (type \<open>'g\<close>).
\<close>

datatype TransportMode = Radiance | Importance

datatype ('sp, 'g) arena_object =
    BSDF_object 'g "nat list"
  | LambertianReflection_object 'sp

type_synonym ('sp, 'g) MemoryArena = "('sp, 'g) arena_object list"

record 'g SurfaceInteraction =
  geometry :: 'g
  bsdf :: "nat option"

record 'sp LambertianMaterial =
  m_Kr :: 'sp

definition ARENA_ALLOC ::
  "('sp, 'g) MemoryArena \<Rightarrow> ('sp, 'g) arena_object \<Rightarrow> nat \<times> ('sp, 'g) MemoryArena" where
  "ARENA_ALLOC arena obj = (length arena, arena @ [obj])"

definition BSDF_add :: "nat \<Rightarrow> nat \<Rightarrow> ('sp, 'g) MemoryArena \<Rightarrow> ('sp, 'g) MemoryArena" where
  "BSDF_add this lobe arena =
     (case arena ! this of
        BSDF_object g lobes \<Rightarrow> arena[this := BSDF_object g (lobes @ [lobe])]
      | LambertianReflection_object R \<Rightarrow> arena)"

text \<open>\<open>LambertianMaterial::computeScatteringFunctions\<close>, lines 21 to 30 of the source.
  \<open>mode\<close> and \<open>allowMultipleLobes\<close> are not used by the body.\<close>

definition computeScatteringFunctions ::
  "('sp \<Rightarrow> bool) \<Rightarrow> 'sp LambertianMaterial \<Rightarrow> 'g SurfaceInteraction \<Rightarrow> ('sp, 'g) MemoryArena
     \<Rightarrow> TransportMode \<Rightarrow> bool \<Rightarrow> 'g SurfaceInteraction \<times> ('sp, 'g) MemoryArena" where
  "computeScatteringFunctions isBlack this si arena mode allowMultipleLobes =
     (case ARENA_ALLOC arena (BSDF_object (geometry si) []) of (b, arena1) \<Rightarrow>
        (let si' = si\<lparr>bsdf := Some b\<rparr>;
             R = m_Kr this
         in if \<not> isBlack R
            then (case ARENA_ALLOC arena1 (LambertianReflection_object R) of (l, arena2) \<Rightarrow>
                    (si', BSDF_add b l arena2))
            else (si', arena1)))"

section \<open>Properties of the sampler\<close>

text \<open>
  Claim C6. In every sampler state, \<open>startNextSample\<close> sets both array cursors to 0,
  adds one to the current sample index and returns true exactly when the new index is
  (signed) less than \<open>samplesPerPixel\<close>; \<open>setSampleNumber n\<close> sets both cursors to 0,
  sets the index to \<open>n\<close> and returns true exactly when \<open>n\<close> is less than
  \<open>samplesPerPixel\<close>. Nothing else of the state changes.
\<close>

theorem C6_startNextSample_setSampleNumber:
  "startNextSample s =
     (m_currentPixelSampleIndex s + 1 <s samplesPerPixel s,
      s\<lparr>m_currentPixelSampleIndex := m_currentPixelSampleIndex s + 1,
        m_array1DOffset := 0, m_array2DOffset := 0\<rparr>)
   \<and> setSampleNumber n s =
     (n <s samplesPerPixel s,
      s\<lparr>m_currentPixelSampleIndex := n, m_array1DOffset := 0, m_array2DOffset := 0\<rparr>)"
  by (simp add: startNextSample_def setSampleNumber_def)

subsection \<open>Filling the buffers in \<open>RandomSampler::startPixel\<close>\<close>

lemma draws_add: "draws u (m + k) r = draws u m r @ draws u k (advance u m r)"
  by (induction m arbitrary: r) (auto split: prod.splits)

lemma advance_add: "advance u (m + k) r = advance u k (advance u m r)"
  by (induction m arbitrary: r) (auto split: prod.splits)

lemma length_draws [simp]: "length (draws u k r) = k"
  by (induction k arbitrary: r) (auto split: prod.splits)

lemma fill1D_row_eq:
  "j \<le> length row \<Longrightarrow>
   fill1D_row u j row r = (take j row @ draws u (length row - j) r, advance u (length row - j) r)"
proof (induction u j row r rule: fill1D_row.induct)
  case (1 u j row r)
  show ?case
  proof (cases "j < length row")
    case True
    obtain x r' where ux: "u r = (x, r')" by (cases "u r")
    have d: "length row - j = Suc (length row - Suc j)" using True by simp
    have "fill1D_row u j row r = fill1D_row u (Suc j) (row[j := x]) r'"
      using True ux by (subst fill1D_row.simps) simp
    also have "\<dots> = (take (Suc j) (row[j := x]) @ draws u (length row - Suc j) r',
                     advance u (length row - Suc j) r')"
      using "1.IH"[OF True ux[symmetric]] True by simp
    also have "take (Suc j) (row[j := x]) = take j row @ [x]"
      using True by (simp add: take_Suc_conv_app_nth)
    finally show ?thesis using ux by (simp add: d)
  next
    case False
    with "1.prems" show ?thesis by (subst fill1D_row.simps) simp
  qed
qed

lemma fill1D_props:
  "i \<le> length arrs \<Longrightarrow> fill1D u i arrs r = (arrs', r') \<Longrightarrow>
   map length arrs' = map length arrs \<and> take i arrs' = take i arrs \<and>
   concat (drop i arrs') = draws u (length (concat (drop i arrs))) r \<and>
   r' = advance u (length (concat (drop i arrs))) r"
proof (induction u i arrs r arbitrary: arrs' r' rule: fill1D.induct)
  case (1 u i arrs r)
  show ?case
  proof (cases "i < length arrs")
    case True
    let ?row = "draws u (length (arrs ! i)) r"
    let ?r1 = "advance u (length (arrs ! i)) r"
    have row: "fill1D_row u 0 (arrs ! i) r = (?row, ?r1)"
      by (simp add: fill1D_row_eq)
    have step: "fill1D u (Suc i) (arrs[i := ?row]) ?r1 = (arrs', r')"
      using "1.prems"(2) True row by (subst (asm) fill1D.simps) simp
    have ih: "map length arrs' = map length (arrs[i := ?row]) \<and>
              take (Suc i) arrs' = take (Suc i) (arrs[i := ?row]) \<and>
              concat (drop (Suc i) arrs') =
                draws u (length (concat (drop (Suc i) (arrs[i := ?row])))) ?r1 \<and>
              r' = advance u (length (concat (drop (Suc i) (arrs[i := ?row])))) ?r1"
      using "1.IH"[OF True row[symmetric] _ step] True by simp
    have len: "length arrs' = length arrs"
      using ih by (metis length_map length_list_update)
    have d1: "drop i arrs = (arrs ! i) # drop (Suc i) arrs"
      using True by (simp add: Cons_nth_drop_Suc)
    have nth: "arrs' ! i = ?row"
    proof -
      have "arrs' ! i = take (Suc i) arrs' ! i" by simp
      also have "\<dots> = take (Suc i) (arrs[i := ?row]) ! i" using ih by simp
      also have "\<dots> = ?row" using True by simp
      finally show ?thesis .
    qed
    have d2: "drop i arrs' = ?row # drop (Suc i) arrs'"
      using True len nth by (metis Cons_nth_drop_Suc)
    have t: "take i arrs' = take i arrs"
    proof -
      have "take i arrs' = take i (take (Suc i) arrs')" by (simp add: min_def)
      also have "\<dots> = take i (take (Suc i) (arrs[i := ?row]))" using ih by simp
      also have "\<dots> = take i arrs" by (simp add: min_def)
      finally show ?thesis .
    qed
    have ml: "map length arrs' = map length arrs"
      using ih True by (simp add: map_update list_update_same_conv)
    show ?thesis
      using ih t ml by (simp add: d1 d2 draws_add advance_add)
  next
    case False
    with "1.prems" show ?thesis by (subst (asm) fill1D.simps) simp
  qed
qed

lemma flatten2_append [simp]: "flatten2 (xs @ ys) = flatten2 xs @ flatten2 ys"
  by (simp add: flatten2_def)

lemma length_flatten2 [simp]: "length (flatten2 vs) = 2 * length vs"
  by (induction vs) (auto simp: flatten2_def)

lemma flatten2_Nil [simp]: "flatten2 [] = []"
  by (simp add: flatten2_def)

lemma flatten2_Cons [simp]: "flatten2 ((x, y) # vs) = x # y # flatten2 vs"
  by (simp add: flatten2_def)

lemma fill2D_row_eq:
  "j \<le> length row \<Longrightarrow> fill2D_row u j row r = (row', r') \<Longrightarrow>
   length row' = length row \<and> take j row' = take j row \<and>
   flatten2 (drop j row') = draws u (2 * (length row - j)) r \<and>
   r' = advance u (2 * (length row - j)) r"
proof (induction u j row r arbitrary: row' r' rule: fill2D_row.induct)
  case (1 u j row r)
  show ?case
  proof (cases "j < length row")
    case True
    obtain x r1 where ux: "u r = (x, r1)" by (cases "u r")
    obtain y r2 where uy: "u r1 = (y, r2)" by (cases "u r1")
    have d: "2 * (length row - j) = Suc (Suc (2 * (length row - Suc j)))" using True by simp
    have step: "fill2D_row u (Suc j) (row[j := (x, y)]) r2 = (row', r')"
      using "1.prems"(2) True ux uy by (subst (asm) fill2D_row.simps) simp
    have ih: "length row' = length row \<and>
              take (Suc j) row' = take (Suc j) (row[j := (x, y)]) \<and>
              flatten2 (drop (Suc j) row') = draws u (2 * (length row - Suc j)) r2 \<and>
              r' = advance u (2 * (length row - Suc j)) r2"
      using "1.IH"[OF True ux[symmetric] uy[symmetric] _ step] True by simp
    have nth: "row' ! j = (x, y)"
    proof -
      have "row' ! j = take (Suc j) row' ! j" by simp
      also have "\<dots> = take (Suc j) (row[j := (x, y)]) ! j" using ih by simp
      also have "\<dots> = (x, y)" using True by simp
      finally show ?thesis .
    qed
    have d2: "drop j row' = (x, y) # drop (Suc j) row'"
      using True ih nth by (metis Cons_nth_drop_Suc)
    have t: "take j row' = take j row"
    proof -
      have "take j row' = take j (take (Suc j) row')" by (simp add: min_def)
      also have "\<dots> = take j (take (Suc j) (row[j := (x, y)]))" using ih by simp
      also have "\<dots> = take j row" by (simp add: min_def)
      finally show ?thesis .
    qed
    show ?thesis
      using ih t ux uy by (simp add: d d2)
  next
    case False
    with "1.prems" show ?thesis by (subst (asm) fill2D_row.simps) simp
  qed
qed

lemma fill2D_props:
  "i \<le> length arrs \<Longrightarrow> fill2D u i arrs r = (arrs', r') \<Longrightarrow>
   map length arrs' = map length arrs \<and> take i arrs' = take i arrs \<and>
   flatten2 (concat (drop i arrs')) = draws u (2 * length (concat (drop i arrs))) r \<and>
   r' = advance u (2 * length (concat (drop i arrs))) r"
proof (induction u i arrs r arbitrary: arrs' r' rule: fill2D.induct)
  case (1 u i arrs r)
  show ?case
  proof (cases "i < length arrs")
    case True
    obtain row r1 where row: "fill2D_row u 0 (arrs ! i) r = (row, r1)"
      by (cases "fill2D_row u 0 (arrs ! i) r")
    have rowp: "length row = length (arrs ! i) \<and>
                flatten2 row = draws u (2 * length (arrs ! i)) r \<and>
                r1 = advance u (2 * length (arrs ! i)) r"
      using fill2D_row_eq[OF _ row] by simp
    have step: "fill2D u (Suc i) (arrs[i := row]) r1 = (arrs', r')"
      using "1.prems"(2) True row by (subst (asm) fill2D.simps) simp
    have ih: "map length arrs' = map length (arrs[i := row]) \<and>
              take (Suc i) arrs' = take (Suc i) (arrs[i := row]) \<and>
              flatten2 (concat (drop (Suc i) arrs')) =
                draws u (2 * length (concat (drop (Suc i) (arrs[i := row])))) r1 \<and>
              r' = advance u (2 * length (concat (drop (Suc i) (arrs[i := row])))) r1"
      using "1.IH"[OF True row[symmetric] _ step] True by simp
    have len: "length arrs' = length arrs"
      using ih by (metis length_map length_list_update)
    have d1: "drop i arrs = (arrs ! i) # drop (Suc i) arrs"
      using True by (simp add: Cons_nth_drop_Suc)
    have nth: "arrs' ! i = row"
    proof -
      have "arrs' ! i = take (Suc i) arrs' ! i" by simp
      also have "\<dots> = take (Suc i) (arrs[i := row]) ! i" using ih by simp
      also have "\<dots> = row" using True by simp
      finally show ?thesis .
    qed
    have d2: "drop i arrs' = row # drop (Suc i) arrs'"
      using True len nth by (metis Cons_nth_drop_Suc)
    have t: "take i arrs' = take i arrs"
    proof -
      have "take i arrs' = take i (take (Suc i) arrs')" by (simp add: min_def)
      also have "\<dots> = take i (take (Suc i) (arrs[i := row]))" using ih by simp
      also have "\<dots> = take i arrs" by (simp add: min_def)
      finally show ?thesis .
    qed
    have ml: "map length arrs' = map length arrs"
      using ih True rowp by (simp add: map_update list_update_same_conv)
    have e: "2 * (length (arrs ! i) + length (concat (drop (Suc i) arrs))) =
             2 * length (arrs ! i) + 2 * length (concat (drop (Suc i) arrs))" by simp
    show ?thesis
      using ih t ml rowp by (simp add: d1 d2 e draws_add advance_add del: distrib_left_numeral)
  next
    case False
    with "1.prems" show ?thesis by (subst (asm) fill2D.simps) simp
  qed
qed

lemma startPixel_effect:
  "samplesPerPixel (RandomSampler_startPixel u p s) = samplesPerPixel s
   \<and> m_samples1DArraySizes (RandomSampler_startPixel u p s) = m_samples1DArraySizes s
   \<and> m_samples2DArraySizes (RandomSampler_startPixel u p s) = m_samples2DArraySizes s
   \<and> m_currentPixel (RandomSampler_startPixel u p s) = p
   \<and> m_currentPixelSampleIndex (RandomSampler_startPixel u p s) = 0
   \<and> m_array1DOffset (RandomSampler_startPixel u p s) = 0
   \<and> m_array2DOffset (RandomSampler_startPixel u p s) = 0
   \<and> map length (m_sampleArray1D (RandomSampler_startPixel u p s)) = map length (m_sampleArray1D s)
   \<and> map length (m_sampleArray2D (RandomSampler_startPixel u p s)) = map length (m_sampleArray2D s)
   \<and> concat (m_sampleArray1D (RandomSampler_startPixel u p s))
       = draws u (length (concat (m_sampleArray1D s))) (m_rng s)
   \<and> flatten2 (concat (m_sampleArray2D (RandomSampler_startPixel u p s)))
       = draws u (2 * length (concat (m_sampleArray2D s)))
           (advance u (length (concat (m_sampleArray1D s))) (m_rng s))
   \<and> m_rng (RandomSampler_startPixel u p s)
       = advance u (length (concat (m_sampleArray1D s)) + 2 * length (concat (m_sampleArray2D s)))
           (m_rng s)"
proof -
  obtain a1 r1 where f1: "fill1D u 0 (m_sampleArray1D s) (m_rng s) = (a1, r1)"
    by (cases "fill1D u 0 (m_sampleArray1D s) (m_rng s)")
  obtain a2 r2 where f2: "fill2D u 0 (m_sampleArray2D s) r1 = (a2, r2)"
    by (cases "fill2D u 0 (m_sampleArray2D s) r1")
  have p1: "map length a1 = map length (m_sampleArray1D s) \<and>
            concat a1 = draws u (length (concat (m_sampleArray1D s))) (m_rng s) \<and>
            r1 = advance u (length (concat (m_sampleArray1D s))) (m_rng s)"
    using fill1D_props[OF _ f1] by simp
  have p2: "map length a2 = map length (m_sampleArray2D s) \<and>
            flatten2 (concat a2) = draws u (2 * length (concat (m_sampleArray2D s))) r1 \<and>
            r2 = advance u (2 * length (concat (m_sampleArray2D s))) r1"
    using fill2D_props[OF _ f2] by simp
  have rs: "RandomSampler_startPixel u p s =
            Sampler_startPixel p (s\<lparr>m_sampleArray1D := a1, m_sampleArray2D := a2, m_rng := r2\<rparr>)"
    by (simp add: RandomSampler_startPixel_def f1 f2)
  show ?thesis
    unfolding rs using p1 p2 by (simp add: Sampler_startPixel_def advance_add)
qed

text \<open>
  Claim C5. For every pixel coordinate \<open>p\<close> and every sampler state, \<open>startPixel p\<close>
  leaves the current pixel at \<open>p\<close>, the current sample index at 0 and both array
  cursors at 0. \<open>RandomSampler::startPixel\<close> does the same and, in the same call,
  overwrites every slot of every registered buffer with its own draw: read in storage
  order, the 1D buffers hold the first draws of the generator, the 2D buffers the
  draws that follow (two per slot, first component first), the buffers keep their
  sizes, and the generator has advanced by exactly that many draws.
\<close>

theorem C5_startPixel:
  "m_currentPixel (Sampler_startPixel p t) = p
   \<and> m_currentPixelSampleIndex (Sampler_startPixel p t) = 0
   \<and> m_array1DOffset (Sampler_startPixel p t) = 0
   \<and> m_array2DOffset (Sampler_startPixel p t) = 0
   \<and> m_currentPixel (RandomSampler_startPixel u p s) = p
   \<and> m_currentPixelSampleIndex (RandomSampler_startPixel u p s) = 0
   \<and> m_array1DOffset (RandomSampler_startPixel u p s) = 0
   \<and> m_array2DOffset (RandomSampler_startPixel u p s) = 0
   \<and> map length (m_sampleArray1D (RandomSampler_startPixel u p s)) = map length (m_sampleArray1D s)
   \<and> map length (m_sampleArray2D (RandomSampler_startPixel u p s)) = map length (m_sampleArray2D s)
   \<and> concat (m_sampleArray1D (RandomSampler_startPixel u p s))
       = draws u (length (concat (m_sampleArray1D s))) (m_rng s)
   \<and> flatten2 (concat (m_sampleArray2D (RandomSampler_startPixel u p s)))
       = draws u (2 * length (concat (m_sampleArray2D s)))
           (advance u (length (concat (m_sampleArray1D s))) (m_rng s))
   \<and> m_rng (RandomSampler_startPixel u p s)
       = advance u (length (concat (m_sampleArray1D s)) + 2 * length (concat (m_sampleArray2D s)))
           (m_rng s)"
  using startPixel_effect[of u p s] by (simp add: Sampler_startPixel_def)

subsection \<open>The array protocol\<close>

lemma drive_append:
  "drive rc u cs s = Inr (xs, s') \<Longrightarrow> drive rc u ds s' = Inr (ys, s'') \<Longrightarrow>
   drive rc u (cs @ ds) s = Inr (xs @ ys, s'')"
  by (induction cs arbitrary: s xs) (auto split: sum.splits prod.splits)

lemma small_cases: "k < 8 \<Longrightarrow> k = 0 \<or> k = 1 \<or> k = 2 \<or> k = 3 \<or> k = 4 \<or> k = 5 \<or> k = 6 \<or> k = (7::nat)"
  by arith

lemma singleton_shape: "map length xs = [m] \<Longrightarrow> length xs = 1 \<and> length (xs ! 0) = m"
  by (cases xs) auto

lemma pass_ok:
  assumes st: "protocol_state k t" and k: "k < 8"
  shows "\<exists>t'. drive rc u pass_calls t = Inr (pass_replies k, t') \<and> protocol_state (Suc k) t'"
proof -
  have s1: "length (m_sampleArray1D t) = 1 \<and> length (m_sampleArray1D t ! 0) = 32"
    using st by (simp add: protocol_state_def singleton_shape)
  have s2: "length (m_sampleArray2D t) = 1 \<and> length (m_sampleArray2D t ! 0) = 16"
    using st by (simp add: protocol_state_def singleton_shape)
  from small_cases[OF k] show ?thesis
    using st s1 s2
    by (elim disjE)
       (simp_all add: protocol_state_def pass_calls_def pass_replies_def get1DArray_def
          get2DArray_def startNextSample_def word_sless_alt)
qed

lemma passes_ok:
  "protocol_state k t \<Longrightarrow> k + m \<le> 8 \<Longrightarrow>
   \<exists>t'. drive rc u (concat (replicate m pass_calls)) t
          = Inr (concat (map pass_replies [k..<k + m]), t') \<and> protocol_state (k + m) t'"
proof (induction m arbitrary: k t)
  case 0
  then show ?case by simp
next
  case (Suc m)
  from Suc.prems obtain t1 where
    one: "drive rc u pass_calls t = Inr (pass_replies k, t1)" and st1: "protocol_state (Suc k) t1"
    using pass_ok[of k t rc u] by auto
  from Suc.IH[OF st1] Suc.prems obtain t2 where
    rest: "drive rc u (concat (replicate m pass_calls)) t1
           = Inr (concat (map pass_replies [Suc k..<Suc k + m]), t2)"
    and st2: "protocol_state (Suc k + m) t2"
    by auto
  have "[k..<k + Suc m] = k # [Suc k..<Suc k + m]"
    by (simp add: upt_conv_Cons)
  then show ?case
    using drive_append[OF one rest] st2 by auto
qed

text \<open>
  Claim C3. Take a sampler with \<open>samplesPerPixel = 8\<close> and nothing registered, register
  one 1D array of size 4 and one 2D array of size 2 and call \<open>startPixel\<close>. Then in
  each of the 8 pixel samples (sample \<open>k\<close> is entered by the \<open>k\<close>-th
  \<open>startNextSample\<close>) the first \<open>get1DArray(4)\<close> and the first \<open>get2DArray(2)\<close> return
  a pointer (to element \<open>4k\<close>, respectively \<open>2k\<close>, of the registered buffer), and a
  second call of either kind in the same sample returns null. No call fails.
\<close>

theorem C3_array_protocol:
  assumes spp: "samplesPerPixel s = 8"
    and none1: "m_samples1DArraySizes s = []" "m_sampleArray1D s = []"
    and none2: "m_samples2DArraySizes s = []" "m_sampleArray2D s = []"
    and rc: "rc 4 = 4" "rc 2 = 2"
  shows "\<exists>s'. drive rc u
            ([Request1DArray 4, Request2DArray 2, StartPixel p]
               @ concat (replicate 8
                   [Get1DArray 4, Get2DArray 2, Get1DArray 4, Get2DArray 2, StartNextSample])) s
          = Inr ([RVoid, RVoid, RVoid]
                   @ concat (map (\<lambda>k. [RPointer (Some \<lparr>v_array = 0, v_first = 4 * k\<rparr>),
                                        RPointer (Some \<lparr>v_array = 0, v_first = 2 * k\<rparr>),
                                        RPointer None, RPointer None, RBool (Suc k < 8)])
                                [0..<8]), s')"
proof -
  define s1 where "s1 = s\<lparr>m_samples1DArraySizes := [4], m_sampleArray1D := [replicate 32 0]\<rparr>"
  define s2 where "s2 = s1\<lparr>m_samples2DArraySizes := [2], m_sampleArray2D := [replicate 16 (0, 0)]\<rparr>"
  define t where "t = RandomSampler_startPixel u p s2"
  have r1: "request1DArray rc 4 s = Inr s1"
    using spp none1 rc by (simp add: request1DArray_def s1_def)
  have r2: "request2DArray rc 2 s1 = Inr s2"
    using spp none2 rc by (simp add: request2DArray_def s1_def s2_def)
  have pre: "drive rc u [Request1DArray 4, Request2DArray 2, StartPixel p] s
             = Inr ([RVoid, RVoid, RVoid], t)"
    by (simp add: r1 r2 t_def)
  have st: "protocol_state 0 t"
    using spp startPixel_effect[of u p s2]
    by (simp add: protocol_state_def t_def s2_def s1_def)
  from passes_ok[OF st, of 8 rc u] obtain t' where
    loop: "drive rc u (concat (replicate 8 pass_calls)) t
           = Inr (concat (map pass_replies [0..<8]), t')"
    by auto
  have "drive rc u ([Request1DArray 4, Request2DArray 2, StartPixel p]
                      @ concat (replicate 8 pass_calls)) s
        = Inr ([RVoid, RVoid, RVoid] @ concat (map pass_replies [0..<8]), t')"
    by (rule drive_append[OF pre loop])
  moreover have "pass_replies = (\<lambda>k. [RPointer (Some \<lparr>v_array = 0, v_first = 4 * k\<rparr>),
                                        RPointer (Some \<lparr>v_array = 0, v_first = 2 * k\<rparr>),
                                        RPointer None, RPointer None, RBool (Suc k < 8)])"
    by (rule ext) (simp add: pass_replies_def)
  ultimately show ?thesis
    unfolding pass_calls_def by auto
qed

theorem C3_array_protocol_witness:
  "samplesPerPixel fresh_sampler = 8
   \<and> m_samples1DArraySizes fresh_sampler = [] \<and> m_sampleArray1D fresh_sampler = []
   \<and> m_samples2DArraySizes fresh_sampler = [] \<and> m_sampleArray2D fresh_sampler = []
   \<and> (\<exists>s'. drive (\<lambda>n. n) counter_rng
            ([Request1DArray 4, Request2DArray 2, StartPixel (3, 5)]
               @ concat (replicate 8
                   [Get1DArray 4, Get2DArray 2, Get1DArray 4, Get2DArray 2, StartNextSample]))
            fresh_sampler
          = Inr ([RVoid, RVoid, RVoid]
                   @ concat (map (\<lambda>k. [RPointer (Some \<lparr>v_array = 0, v_first = 4 * k\<rparr>),
                                        RPointer (Some \<lparr>v_array = 0, v_first = 2 * k\<rparr>),
                                        RPointer None, RPointer None, RBool (Suc k < 8)])
                                [0..<8]), s'))"
  using C3_array_protocol[of fresh_sampler "\<lambda>n. n" counter_rng "(3, 5)"]
  by (simp add: fresh_sampler_def)

subsection \<open>Mismatched array requests\<close>

text \<open>
  Claim C8. In every sampler state whose cursor still points at a registered array,
  \<open>get1DArray n\<close> (and likewise \<open>get2DArray n\<close>) with \<open>n\<close> different from the size
  recorded for that array fails its \<open>CHECK_EQ\<close>: the call is fatal and returns no view,
  truncated or otherwise.
\<close>

theorem C8_size_mismatch_is_fatal:
  "(m_array1DOffset s < length (m_sampleArray1D s)
      \<and> m_array1DOffset s < length (m_samples1DArraySizes s)
      \<and> m_samples1DArraySizes s ! m_array1DOffset s \<noteq> n
    \<longrightarrow> get1DArray n s = Inl CheckFailed)
   \<and> (m_array2DOffset s < length (m_sampleArray2D s)
      \<and> m_array2DOffset s < length (m_samples2DArraySizes s)
      \<and> m_samples2DArraySizes s ! m_array2DOffset s \<noteq> n
    \<longrightarrow> get2DArray n s = Inl CheckFailed)"
  by (simp add: get1DArray_def get2DArray_def)

theorem C8_size_mismatch_is_fatal_witness:
  "m_array1DOffset used_sampler < length (m_sampleArray1D used_sampler)
   \<and> m_array1DOffset used_sampler < length (m_samples1DArraySizes used_sampler)
   \<and> m_samples1DArraySizes used_sampler ! m_array1DOffset used_sampler \<noteq> 2
   \<and> get1DArray 2 used_sampler = Inl CheckFailed
   \<and> m_array2DOffset other_sampler < length (m_sampleArray2D other_sampler)
   \<and> m_array2DOffset other_sampler < length (m_samples2DArraySizes other_sampler)
   \<and> m_samples2DArraySizes other_sampler ! m_array2DOffset other_sampler \<noteq> 2
   \<and> get2DArray 2 other_sampler = Inl CheckFailed"
  using C8_size_mismatch_is_fatal[of used_sampler 2] C8_size_mismatch_is_fatal[of other_sampler 2]
  by (simp add: used_sampler_def other_sampler_def)

subsection \<open>Clones with the same seed\<close>

lemma shape_concat_inj:
  "map length xs = map length ys \<Longrightarrow> concat xs = concat ys \<Longrightarrow> xs = ys"
proof (induction xs arbitrary: ys)
  case Nil
  then show ?case by simp
next
  case (Cons x xs)
  then obtain y ys' where ys: "ys = y # ys'" by (cases ys) auto
  with Cons.prems have "length x = length y" "x @ concat xs = y @ concat ys'" by auto
  then have "x = y" "concat xs = concat ys'" by auto
  with Cons.IH[of ys'] Cons.prems ys show ?case by simp
qed

lemma flatten2_inj: "flatten2 xs = flatten2 ys \<Longrightarrow> xs = ys"
proof (induction xs arbitrary: ys)
  case Nil
  then show ?case by (cases ys) auto
next
  case (Cons x xs)
  then show ?case by (cases ys; cases x) auto
qed

lemma startPixel_forgets:
  assumes reg: "same_registration a b" and rng: "m_rng a = m_rng b"
  shows "RandomSampler_startPixel u p a = RandomSampler_startPixel u p b"
proof -
  note ea = startPixel_effect[of u p a] and eb = startPixel_effect[of u p b]
  have n1: "length (concat (m_sampleArray1D a)) = length (concat (m_sampleArray1D b))"
    using reg by (simp add: same_registration_def length_concat)
  have n2: "length (concat (m_sampleArray2D a)) = length (concat (m_sampleArray2D b))"
    using reg by (simp add: same_registration_def length_concat)
  have a1: "m_sampleArray1D (RandomSampler_startPixel u p a)
            = m_sampleArray1D (RandomSampler_startPixel u p b)"
    using ea eb reg rng n1 by (intro shape_concat_inj) (simp_all add: same_registration_def)
  have a2: "m_sampleArray2D (RandomSampler_startPixel u p a)
            = m_sampleArray2D (RandomSampler_startPixel u p b)"
    using ea eb reg rng n1 n2
    by (intro shape_concat_inj flatten2_inj) (simp_all add: same_registration_def)
  show ?thesis
    using ea eb reg rng n1 n2 a1 a2
    by (intro RandomSampler.equality) (simp_all add: same_registration_def)
qed

text \<open>
  Claim C4. Two clones made with the same seed, of one sampler or of two samplers with
  the same registration whose generators agree once reseeded, return the same values
  and end in the same state (buffers included) under every sequence of calls that
  starts with \<open>startPixel\<close>: the values of \<open>get1D\<close>, \<open>get2D\<close>, the array pointers and
  the contents of the registered buffers are identical. What the two objects held
  before (buffer contents, cursors, pixel, sample index) has no influence.
\<close>

theorem C4_clone_determinism:
  assumes "same_registration a b"
    and "setSequence seed (m_rng a) = setSequence seed (m_rng b)"
  shows "drive rc u (StartPixel p # cs) (clone setSequence seed a)
         = drive rc u (StartPixel p # cs) (clone setSequence seed b)"
proof -
  have "same_registration (clone setSequence seed a) (clone setSequence seed b)"
    using assms(1) by (simp add: same_registration_def clone_def)
  moreover have "m_rng (clone setSequence seed a) = m_rng (clone setSequence seed b)"
    using assms(2) by (simp add: clone_def)
  ultimately have "RandomSampler_startPixel u p (clone setSequence seed a)
                   = RandomSampler_startPixel u p (clone setSequence seed b)"
    by (rule startPixel_forgets)
  then show ?thesis by simp
qed

theorem C4_clone_determinism_witness:
  "same_registration used_sampler other_sampler
   \<and> reseed 5 (m_rng used_sampler) = reseed 5 (m_rng other_sampler)
   \<and> drive (\<lambda>n. n) counter_rng [StartPixel (2, 3), Get1D, Get1DArray 1, Get2D, StartNextSample, Get2DArray 1]
       (clone reseed 5 used_sampler)
     = drive (\<lambda>n. n) counter_rng [StartPixel (2, 3), Get1D, Get1DArray 1, Get2D, StartNextSample, Get2DArray 1]
       (clone reseed 5 other_sampler)"
  using C4_clone_determinism[of used_sampler other_sampler reseed 5 "\<lambda>n. n" counter_rng "(2, 3)"
      "[Get1D, Get1DArray 1, Get2D, StartNextSample, Get2DArray 1]"]
  by (simp add: same_registration_def used_sampler_def other_sampler_def reseed_def)

section \<open>Properties of the scheduler\<close>

subsection \<open>Evaluating the counting iterations and the thread pool\<close>

lemma int_range_numeral:
  "int_range (numeral a) (numeral b)
   = (if (numeral a :: int32) <s numeral b then numeral a # int_range (numeral a + 1) (numeral b)
      else [])"
  "int_range 0 (numeral b)
   = (if (0 :: int32) <s numeral b then 0 # int_range 1 (numeral b) else [])"
  "int_range 1 (numeral b)
   = (if (1 :: int32) <s numeral b then 1 # int_range 2 (numeral b) else [])"
  by (subst int_range.simps, simp)+

lemma size_range_numeral:
  "size_range (numeral a) (numeral b)
   = (if (numeral a :: size_t) < numeral b
      then numeral a # size_range (numeral a + 1) (numeral b) else [])"
  by (subst size_range.simps) simp

lemma two_workers: "int_range 0 (numSystemCores 2) = [0, 1]"
  by (simp add: numSystemCores_def int_range.simps[of 0] int_range.simps[of 1]
        int_range.simps[of 2] word_sless_alt)

lemma SIZE_MAX_facts:
  "unat SIZE_MAX = 18446744073709551615" "SIZE_MAX + 1 = 0" "\<not> SIZE_MAX < SIZE_MAX"
  "SIZE_MAX - 1 < SIZE_MAX" "SIZE_MAX - 1 + 1 = SIZE_MAX" "0 < SIZE_MAX"
  "word_of_nat 18446744073709551615 = SIZE_MAX"
  by (simp_all add: SIZE_MAX_def)

lemma run_append:
  "run e (xs @ ys) s = (case run e xs s of None \<Rightarrow> None | Some s' \<Rightarrow> run e ys s')"
  by (induction xs arbitrary: s) (auto split: option.splits)

lemma unat_plus_one: "(i :: size_t) < e \<Longrightarrow> unat (i + 1) = Suc (unat i)"
proof -
  assume "i < e"
  then have "unat i < unat e" by (simp add: word_less_nat_alt)
  moreover have "unat e < 2 ^ LENGTH(64)" by (rule unsigned_less)
  ultimately have "unat i + unat (1 :: size_t) < 2 ^ LENGTH(64)" by simp
  then have "unat (i + 1) = unat i + unat (1 :: size_t)"
    by (simp only: unat_add_lem)
  then show ?thesis by simp
qed

lemma fetch_call:
  assumes j: "j < length (workers s)" and f: "workers s ! j = Fetching"
    and lt: "task_index s < e"
  shows "run e [j, j] s
         = Some (s\<lparr>task_index := task_index s + 1,
                   calls := calls s @ [(Worker j, task_index s)]\<rparr>)"
proof -
  have "(workers s)[j := Fetching] = workers s"
    using f by (metis list_update_id)
  then show ?thesis
    using j f lt by (simp add: worker_step_def Let_def)
qed

lemma solo_run:
  "j < length (workers s) \<Longrightarrow> workers s ! j = Fetching \<Longrightarrow>
   unat (task_index s) + k \<le> unat e \<Longrightarrow>
   run e (concat (replicate k [j, j])) s
   = Some (s\<lparr>task_index := task_index s + of_nat k,
             calls := calls s @ map (\<lambda>i. (Worker j, task_index s + of_nat i)) [0..<k]\<rparr>)"
proof (induction k arbitrary: s)
  case 0
  then show ?case by simp
next
  case (Suc k)
  let ?c = "task_index s"
  let ?s1 = "s\<lparr>task_index := ?c + 1, calls := calls s @ [(Worker j, ?c)]\<rparr>"
  have lt: "?c < e" using Suc.prems(3) by (simp add: word_less_nat_alt)
  have one: "run e [j, j] s = Some ?s1"
    using fetch_call[OF Suc.prems(1,2) lt] .
  have u: "unat (?c + 1) = Suc (unat ?c)" using unat_plus_one[OF lt] .
  have rest: "run e (concat (replicate k [j, j])) ?s1
        = Some (?s1\<lparr>task_index := task_index ?s1 + of_nat k,
                      calls := calls ?s1
                        @ map (\<lambda>i. (Worker j, task_index ?s1 + of_nat i)) [0..<k]\<rparr>)"
    using Suc.prems u by (intro Suc.IH) simp_all
  have split: "concat (replicate (Suc k) [j, j]) = [j, j] @ concat (replicate k [j, j])"
    by simp
  have m: "map (\<lambda>i. (Worker j, ?c + of_nat i)) [0..<Suc k]
           = (Worker j, ?c) # map (\<lambda>i. (Worker j, ?c + 1 + of_nat i)) [0..<k]"
    by (simp add: upt_conv_Cons map_Suc_upt[symmetric] add.assoc del: upt_Suc)
  show ?case
    unfolding split run_append one using rest
    by (simp add: m add.assoc del: upt_Suc replicate_Suc)
qed

lemma run_chain:
  "run e xs s = Some s' \<Longrightarrow> run e ys s' = r \<Longrightarrow> run e (xs @ ys) s = r"
  by (simp add: run_append)

subsection \<open>Static split\<close>

text \<open>The chunk computation itself is sound as long as the \<open>int\<close> arithmetic does
  not overflow (\<open>n_task + n_threads < 2^31\<close>): thread \<open>j\<close> of \<open>T\<close> receives the values
  from \<open>j * (n div T) + min j (n mod T)\<close> up to the start of thread \<open>j + 1\<close>
  (\<open>static_split_chunks\<close>), so the chunks are contiguous, cover \<open>0, ..., n - 1\<close> once
  each in order, and the first \<open>n mod T\<close> of them hold one value more
  (\<open>static_split_partition\<close>). These are offsets into the range, not its indices.\<close>

lemma sint_of_nat_int32: "a < 2147483648 \<Longrightarrow> sint (of_nat a :: int32) = int a"
  by (simp add: signed_of_nat signed_take_bit_int_eq_self)

lemma sint_of_int_int32:
  "- 2147483648 \<le> x \<Longrightarrow> x < 2147483648 \<Longrightarrow> sint (of_int x :: int32) = x"
  by (simp add: signed_of_int signed_take_bit_int_eq_self)

lemma int_range_of_nat:
  "a < 2147483648 \<Longrightarrow> b < 2147483648 \<Longrightarrow> int_range (of_nat a) (of_nat b) = map of_nat [a..<b]"
proof (induction "b - a" arbitrary: a)
  case 0
  then have "\<not> (of_nat a :: int32) <s of_nat b"
    by (simp add: word_sless_alt sint_of_nat_int32)
  with 0 show ?case by (subst int_range.simps) simp
next
  case (Suc d)
  then have lt: "a < b" by simp
  then have "(of_nat a :: int32) <s of_nat b"
    using Suc.prems by (simp add: word_sless_alt sint_of_nat_int32)
  then have "int_range (of_nat a) (of_nat b) = of_nat a # int_range (of_nat (Suc a)) (of_nat b)"
    by (subst int_range.simps) (simp add: add.commute)
  also have "int_range (of_nat (Suc a)) (of_nat b) = map of_nat [Suc a..<b]"
    using Suc.hyps(2) Suc.prems lt by (intro Suc.hyps(1)) simp_all
  finally show ?case using lt by (simp add: upt_conv_Cons)
qed

lemma cores_eq:
  assumes "0 <s nt"
  shows "nt = (of_nat (nat (sint nt)) :: int32)" and "nat (sint nt) < 2147483648" and "0 < nat (sint nt)"
    and "(scast nt :: size_t) = of_nat (nat (sint nt))"
proof -
  from assms have pos: "0 < sint nt" by (simp add: word_sless_alt)
  show "nt = (of_nat (nat (sint nt)) :: int32)" using pos by simp
  have "sint nt < 2147483648" using sint_lt[of nt] by simp
  then show "nat (sint nt) < 2147483648" using pos by linarith
  show "0 < nat (sint nt)" using pos by simp
  have "int (nat (sint nt)) = sint nt" using pos by simp
  then have "(of_nat (nat (sint nt)) :: size_t) = of_int (sint nt)"
    by (metis of_int_of_nat_eq)
  then show "(scast nt :: size_t) = of_nat (nat (sint nt))"
    by (simp only: scast_eq)
qed

lemma inner_loop_of_nat:
  assumes T: "T < 2147483648" and j: "j < T" and tq: "T * Q < 2147483648"
    and L: "L \<le> T" and q0: "Q = 0 \<Longrightarrow> L = 0"
  shows "inner_loop (of_nat T) (of_nat Q) (of_nat L) (of_nat j)
         = map of_nat [j * Q - (j + L - T)
                       ..< j * Q - (j + L - T) + Q - (if T \<le> j + L then 1 else 0)]"
proof -
  let ?x = "of_nat j - of_nat T + of_nat L :: int32"
  have x: "?x = of_int (int j - int T + int L)" by simp
  have "- 2147483648 \<le> int j - int T + int L" "int j - int T + int L < 2147483648"
    using T j L by linarith+
  then have sx: "sint ?x = int j - int T + int L"
    unfolding x by (rule sint_of_int_int32)
  have "?x <s 0 \<longleftrightarrow> sint ?x < 0" by (simp add: word_sless_alt)
  also have "\<dots> \<longleftrightarrow> j + L < T" unfolding sx by linarith
  finally have neg: "?x <s 0 \<longleftrightarrow> j + L < T" .
  have "0 \<le>s ?x \<longleftrightarrow> 0 \<le> sint ?x" by (simp add: word_sle_eq)
  also have "\<dots> \<longleftrightarrow> T \<le> j + L" unfolding sx by linarith
  finally have nonneg: "0 \<le>s ?x \<longleftrightarrow> T \<le> j + L" .
  have jq: "j * Q + Q \<le> T * Q"
  proof -
    have "Suc j * Q \<le> T * Q" using j by (intro mult_le_mono1) simp
    then show ?thesis by (simp add: add.commute)
  qed
  show ?thesis
  proof (cases "j + L < T")
    case True
    then have z: "j + L - T = 0" "\<not> T \<le> j + L" by simp_all
    have b: "j * Q < 2147483648" "j * Q + Q < 2147483648" using jq tq by linarith+
    have "inner_loop (of_nat T) (of_nat Q) (of_nat L) (of_nat j)
          = int_range (of_nat j * of_nat Q - 0) (of_nat j * of_nat Q - 0 + of_nat Q - 0)"
      unfolding inner_loop_def Let_def by (simp only: neg nonneg True z if_True if_False)
    also have "\<dots> = int_range (of_nat (j * Q)) (of_nat (j * Q + Q))"
      by simp
    also have "\<dots> = map of_nat [j * Q..<j * Q + Q]"
      using b by (rule int_range_of_nat)
    finally show ?thesis using z by simp
  next
    case False
    then have ge: "T \<le> j + L" by simp
    have Q1: "1 \<le> Q"
    proof (rule ccontr)
      assume "\<not> 1 \<le> Q"
      then have "Q = 0" by simp
      with q0 ge j show False by simp
    qed
    have "j + L - T \<le> j" using L by simp
    also have "j \<le> j * Q" using Q1 by simp
    finally have sub: "j + L - T \<le> j * Q" .
    have xe: "?x = of_nat (j + L - T)"
      using ge by (simp add: of_nat_diff)
    have lo: "(of_nat j * of_nat Q - of_nat (j + L - T) :: int32)
              = of_nat (j * Q - (j + L - T))"
      using sub by (simp add: of_nat_diff)
    have hi: "(of_nat (j * Q - (j + L - T)) + of_nat Q - 1 :: int32)
              = of_nat (j * Q - (j + L - T) + Q - 1)"
      using Q1 by (simp add: of_nat_diff)
    have b: "j * Q - (j + L - T) < 2147483648" "j * Q - (j + L - T) + Q - 1 < 2147483648"
      using jq tq by linarith+
    have "inner_loop (of_nat T) (of_nat Q) (of_nat L) (of_nat j)
          = int_range (of_nat j * of_nat Q - ?x) (of_nat j * of_nat Q - ?x + of_nat Q - 1)"
      unfolding inner_loop_def Let_def by (simp only: neg nonneg False ge if_True if_False)
    also have "\<dots> = int_range (of_nat (j * Q - (j + L - T)))
                          (of_nat (j * Q - (j + L - T) + Q - 1))"
      by (simp only: xe lo hi)
    also have "\<dots> = map of_nat [j * Q - (j + L - T)..<j * Q - (j + L - T) + Q - 1]"
      using b by (rule int_range_of_nat)
    finally show ?thesis using ge by simp
  qed
qed

lemma chunk_bounds:
  fixes n T j :: nat
  assumes T: "0 < T" and j: "j < T"
  defines "Q \<equiv> n div T + (if n mod T = 0 then 0 else 1)"
  defines "L \<equiv> Q * T - n"
  shows "j * Q - (j + L - T) = j * (n div T) + min j (n mod T)"
    and "j * Q - (j + L - T) + Q - (if T \<le> j + L then 1 else 0)
         = Suc j * (n div T) + min (Suc j) (n mod T)"
    and "T * Q \<le> n + T - 1" and "L \<le> T" and "Q = 0 \<Longrightarrow> L = 0" and "n \<le> Q * T"
proof -
  define q r where "q = n div T" and "r = n mod T"
  have n: "n = q * T + r" and r: "r < T" using T by (simp_all add: q_def r_def)
  have all: "(j * Q - (j + L - T) = j * q + min j r)
     \<and> (j * Q - (j + L - T) + Q - (if T \<le> j + L then 1 else 0) = Suc j * q + min (Suc j) r)
     \<and> T * Q \<le> n + T - 1 \<and> L \<le> T \<and> (Q = 0 \<longrightarrow> L = 0) \<and> n \<le> Q * T"
  proof (cases "r = 0")
    case True
    then have Q: "Q = q" by (simp add: Q_def q_def r_def)
    have nq: "n = q * T" using n True by simp
    have L: "L = 0" by (simp add: L_def Q nq)
    have g1: "j * Q - (j + L - T) = j * q + min j r" using j True by (simp add: Q L)
    have g2: "j * Q - (j + L - T) + Q - (if T \<le> j + L then 1 else 0) = Suc j * q + min (Suc j) r"
      using j True by (simp add: Q L)
    have g3: "T * Q \<le> n + T - 1" using T by (simp add: Q nq mult.commute)
    have g4: "n \<le> Q * T" by (simp add: Q nq)
    show ?thesis using g1 g2 g3 g4 L by simp
  next
    case False
    then have Q: "Q = Suc q" by (simp add: Q_def q_def r_def)
    have L: "L = T - r" using n r by (simp add: L_def Q)
    have a: "j + L - T = j - r" using r by (simp add: L)
    have b: "T \<le> j + L \<longleftrightarrow> r \<le> j" using r by (auto simp: L)
    have c: "j * Suc q - (j - r) = j * q + min j r" by (simp add: min_def)
    have g1: "j * Q - (j + L - T) = j * q + min j r" unfolding a Q c ..
    have "j * Q - (j + L - T) + Q - (if T \<le> j + L then 1 else 0)
          = (j * q + min j r) + Q - (if r \<le> j then 1 else 0)"
      by (simp only: g1 b)
    also have "\<dots> = Suc j * q + min (Suc j) r"
      using False by (auto simp: min_def Q)
    finally have g2: "j * Q - (j + L - T) + Q - (if T \<le> j + L then 1 else 0)
                      = Suc j * q + min (Suc j) r" .
    have tq: "T * Q = q * T + T" by (simp add: Q mult.commute)
    have g3: "T * Q \<le> n + T - 1" unfolding tq using n False by simp
    have g4: "n \<le> Q * T" using n r by (simp add: Q)
    have g5: "L \<le> T" by (simp add: L)
    show ?thesis using g1 g2 g3 g4 g5 by (simp add: Q)
  qed
  note a = all[unfolded q_def r_def]
  show "j * Q - (j + L - T) = j * (n div T) + min j (n mod T)" using a by blast
  show "j * Q - (j + L - T) + Q - (if T \<le> j + L then 1 else 0)
        = Suc j * (n div T) + min (Suc j) (n mod T)" using a by blast
  show "T * Q \<le> n + T - 1" using a by blast
  show "L \<le> T" using a by blast
  show "Q = 0 \<Longrightarrow> L = 0" using a by blast
  show "n \<le> Q * T" using a by blast
qed

lemma concat_consecutive:
  "(\<And>j. j < T \<Longrightarrow> f j \<le> f (Suc j)) \<Longrightarrow>
   concat (map (\<lambda>j. [f j..<f (Suc j)]) [0..<T]) = [f 0..<f T] \<and> f 0 \<le> f T"
proof (induction T)
  case 0
  then show ?case by simp
next
  case (Suc T)
  then have ih: "concat (map (\<lambda>j. [f j..<f (Suc j)]) [0..<T]) = [f 0..<f T]" "f 0 \<le> f T"
    by simp_all
  have st: "f T \<le> f (Suc T)" using Suc.prems by simp
  have "[f 0..<f T] @ [f T..<f (Suc T)] = [f 0..<f (Suc T)]"
    using ih(2) st by (metis le_Suc_ex upt_add_eq_append)
  then show ?case using ih st by simp
qed

lemma unat_of_nat_small: "k < 2147483648 \<Longrightarrow> unat (of_nat k :: size_t) = k"
  by (simp add: unat_of_nat take_bit_nat_eq_self)

lemma ucast_of_nat_small:
  "k < 2147483648 \<Longrightarrow> (ucast (of_nat k :: size_t) :: int32) = of_nat k"
proof -
  assume "k < 2147483648"
  then have "unat (of_nat k :: size_t) = k" by (rule unat_of_nat_small)
  then have "uint (of_nat k :: size_t) = int k" by (metis uint_nat)
  then show ?thesis by (simp only: ucast_eq of_int_of_nat_eq)
qed

lemma scast_of_nat_small:
  "k < 2147483648 \<Longrightarrow> (scast (of_nat k :: int32) :: size_t) = of_nat k"
proof -
  assume "k < 2147483648"
  then have "sint (of_nat k :: int32) = int k" by (rule sint_of_nat_int32)
  then show ?thesis by (simp only: scast_eq of_int_of_nat_eq)
qed

lemma static_split_chunks:
  fixes start "end" :: size_t
  assumes cores: "0 <s numSystemCores hw"
    and small: "unat (end - start) + nat (sint (numSystemCores hw)) < 2147483648"
    and ok: "debug \<Longrightarrow> start < end"
  defines "T \<equiv> nat (sint (numSystemCores hw))"
  defines "n \<equiv> unat (end - start)"
  shows "parallel_for debug hw start end
         = Returned (map (\<lambda>j. map of_nat [j * (n div T) + min j (n mod T)
                                           ..< Suc j * (n div T) + min (Suc j) (n mod T)])
                         [0..<T])"
proof -
  define Q where "Q = n div T + (if n mod T = 0 then 0 else 1)"
  define L where "L = Q * T - n"
  have nt: "numSystemCores hw = of_nat T" and T31: "T < 2147483648" and T0: "0 < T"
    and snt: "(scast (numSystemCores hw) :: size_t) = of_nat T"
    using cores_eq[OF cores] by (simp_all add: T_def)
  have n31: "n < 2147483648" using small by (simp add: n_def)
  have nT: "n + T < 2147483648" using small by (simp add: n_def T_def)
  have task: "end - start = of_nat n" by (simp add: n_def)
  have uT: "unat (of_nat T :: size_t) = T" using T31 by (rule unat_of_nat_small)
  have tq: "T * Q \<le> n + T - 1" and LT: "L \<le> T" and q0: "Q = 0 \<Longrightarrow> L = 0" and nq: "n \<le> Q * T"
    using chunk_bounds(3-6)[OF T0 T0, of n] by (simp_all add: Q_def L_def)
  have tq31: "T * Q < 2147483648" using tq nT T0 by linarith
  have Q31: "Q < 2147483648"
  proof -
    have "Q \<le> T * Q" using T0 by simp
    then show ?thesis using tq31 by linarith
  qed
  have L31: "L < 2147483648" using LT T31 by linarith
  have dv: "(end - start) div of_nat T = (of_nat (n div T) :: size_t)"
  proof -
    have "n div T < 2147483648" using n31 div_le_dividend[of n T] by linarith
    then have "unat (of_nat (n div T) :: size_t) = n div T" by (rule unat_of_nat_small)
    moreover have "unat ((end - start) div of_nat T) = n div T"
      by (simp only: unat_div_distrib uT n_def)
    ultimately show ?thesis by (simp only: word_unat_eq_iff)
  qed
  have md: "((end - start) mod of_nat T = (0 :: size_t)) \<longleftrightarrow> n mod T = 0"
  proof -
    have "unat ((end - start) mod of_nat T) = n mod T"
      by (simp only: unat_mod_distrib uT n_def)
    then show ?thesis by (simp add: word_unat_eq_iff)
  qed
  have v: "(end - start) div of_nat T
             + (if (end - start) mod of_nat T = (0 :: size_t) then 0 else 1)
           = (of_nat Q :: size_t)"
    unfolding dv md by (simp add: Q_def)
  have nmax: "(ucast ((end - start) div scast (numSystemCores hw)
                 + (if (end - start) mod scast (numSystemCores hw) = 0 then 0 else 1)) :: int32)
              = of_nat Q"
    unfolding snt v using Q31 by (rule ucast_of_nat_small)
  have "(scast (of_nat Q * of_nat T :: int32) :: size_t) = scast (of_nat (T * Q) :: int32)"
    by (simp add: mult.commute)
  also have "\<dots> = of_nat (T * Q)" using tq31 by (rule scast_of_nat_small)
  finally have sc: "(scast (of_nat Q * of_nat T :: int32) :: size_t) = of_nat (T * Q)" .
  have "(of_nat (T * Q) - (end - start) :: size_t) = of_nat (T * Q - n)"
    unfolding task using nq by (simp add: of_nat_diff mult.commute)
  then have lk: "(of_nat (T * Q) - (end - start) :: size_t) = of_nat L"
    by (simp add: L_def mult.commute)
  have nlack: "(ucast (scast (of_nat Q * of_nat T :: int32) - (end - start)) :: int32) = of_nat L"
    unfolding sc lk using L31 by (rule ucast_of_nat_small)
  have rng: "int_range 0 (of_nat T :: int32) = map of_nat [0..<T]"
    using int_range_of_nat[of 0 T] T31 by simp
  have chunk: "inner_loop (of_nat T) (of_nat Q) (of_nat L) (of_nat j)
               = map of_nat [j * (n div T) + min j (n mod T)
                             ..< Suc j * (n div T) + min (Suc j) (n mod T)]"
    if j: "j < T" for j
  proof -
    note c1 = chunk_bounds(1)[OF T0 j, of n, folded Q_def, folded L_def]
      and c2 = chunk_bounds(2)[OF T0 j, of n, folded Q_def, folded L_def]
    have c2': "j * (n div T) + min j (n mod T) + Q - (if T \<le> j + L then 1 else 0)
               = Suc j * (n div T) + min (Suc j) (n mod T)"
      using c2 unfolding c1 .
    show ?thesis
      using inner_loop_of_nat[OF T31 j tq31 LT q0] by (simp only: c1 c2')
  qed
  have "parallel_for debug hw start end
        = Returned (map (inner_loop (of_nat T) (of_nat Q) (of_nat L)) (map of_nat [0..<T]))"
    unfolding parallel_for_def Let_def nmax nt[symmetric]
    using ok by (simp only: nt nmax nlack rng) auto
  also have "map (inner_loop (of_nat T) (of_nat Q) (of_nat L)) (map of_nat [0..<T])
             = map (\<lambda>j. map of_nat [j * (n div T) + min j (n mod T)
                                       ..< Suc j * (n div T) + min (Suc j) (n mod T)]) [0..<T]"
    using chunk by simp
  finally show ?thesis .
qed

lemma static_split_partition:
  fixes start "end" :: size_t
  assumes cores: "0 <s numSystemCores hw"
    and small: "unat (end - start) + nat (sint (numSystemCores hw)) < 2147483648"
    and ok: "debug \<Longrightarrow> start < end"
  defines "T \<equiv> nat (sint (numSystemCores hw))"
  defines "n \<equiv> unat (end - start)"
  shows "\<exists>chunks. parallel_for debug hw start end = Returned chunks
           \<and> length chunks = T
           \<and> concat chunks = map of_nat [0..<n]
           \<and> (\<forall>j<T. length (chunks ! j) = n div T + (if j < n mod T then 1 else 0))"
proof -
  define f where "f j = j * (n div T) + min j (n mod T)" for j
  let ?chunks = "map (\<lambda>j. map of_nat [f j..<f (Suc j)] :: int32 list) [0..<T]"
  have T0: "0 < T" using cores by (simp add: T_def word_sless_alt)
  have ret: "parallel_for debug hw start end = Returned ?chunks"
    using static_split_chunks[OF cores small ok] by (simp add: f_def T_def n_def)
  have mono: "f j \<le> f (Suc j)" for j by (simp add: f_def min_def)
  have f0: "f 0 = 0" by (simp add: f_def)
  have "n mod T < T" using T0 by simp
  then have "f T = T * (n div T) + n mod T" by (simp add: f_def)
  then have fT: "f T = n" by simp
  have "concat ?chunks = map of_nat (concat (map (\<lambda>j. [f j..<f (Suc j)]) [0..<T]))"
    by (simp add: map_concat comp_def)
  also have "concat (map (\<lambda>j. [f j..<f (Suc j)]) [0..<T]) = [f 0..<f T]"
    using concat_consecutive[of T f] mono by simp
  finally have cover: "concat ?chunks = map of_nat [0..<n]" by (simp add: f0 fT)
  have size: "length (?chunks ! j) = n div T + (if j < n mod T then 1 else 0)" if "j < T" for j
    using that by (simp add: f_def min_def)
  show ?thesis using ret cover size by (intro exI[of _ ?chunks]) simp
qed

text \<open>
  Claim C1 (the chunks of the static split are contiguous, balanced and cover
  \<open>[start, end)\<close> exactly once) fails on the code: the chunk bounds are computed
  from \<open>n_task = end - start\<close> alone and \<open>start\<close> is never added, so the callback
  receives the indices of \<open>[0, end - start)\<close>. For \<open>start = 5\<close>, \<open>end = 10\<close> on two
  hardware threads the two workers call \<open>function\<close> on 0, 1, 2 and on 3, 4: no
  index of \<open>[5, 10)\<close> is processed, and 0 to 4 lie outside the range.
  The serial loop and the atomic-seize strategy pass the indices of
  \<open>[start, end)\<close> themselves: on the same range the serial path calls the callback
  on 5, 6, 7, 8, 9.
\<close>

theorem C1_static_split_ignores_start:
  "parallel_for debug 2 5 10 = Returned [ [0, 1, 2], [3, 4] ]
   \<and> parallelFor debug 2 schedule 5 10 SERIAL
     = Returned [(Caller, 5), (Caller, 6), (Caller, 7), (Caller, 8), (Caller, 9)]"
  by (simp add: parallel_for_def numSystemCores_def inner_loop_def int_range_numeral
        parallelFor_def size_range_numeral word_sless_alt word_sle_eq)

subsection \<open>Atomic seize when the cursor wraps\<close>

lemma wrapped_run_after_range:
  "run SIZE_MAX ([0, 0, 1] @ concat (replicate 18446744073709551615 [0, 0]) @ [0])
       \<lparr>task_index = SIZE_MAX - 1, workers = [Fetching, Fetching], calls = []\<rparr>
   = Some \<lparr>task_index = 0, workers = [Finished, Finished],
           calls = (Worker 0, SIZE_MAX - 1)
                   # map (\<lambda>i. (Worker 0, word_of_nat i)) [0..<18446744073709551615]\<rparr>"
proof -
  let ?N = "18446744073709551615 :: nat"
  let ?s1 = "\<lparr>task_index = 0, workers = [Fetching, Finished], calls = [(Worker 0, SIZE_MAX - 1)]\<rparr>"
  let ?cs = "(Worker 0, SIZE_MAX - 1) # map (\<lambda>i. (Worker 0, word_of_nat i)) [0..<?N]"
  let ?s2 = "\<lparr>task_index = SIZE_MAX, workers = [Fetching, Finished], calls = ?cs\<rparr>"
  have pre: "run SIZE_MAX [0, 0, 1]
               \<lparr>task_index = SIZE_MAX - 1, workers = [Fetching, Fetching], calls = []\<rparr> = Some ?s1"
    by (simp add: worker_step_def SIZE_MAX_facts)
  have "run SIZE_MAX (concat (replicate ?N [0, 0])) ?s1
        = Some (?s1\<lparr>task_index := task_index ?s1 + of_nat ?N,
                    calls := calls ?s1
                      @ map (\<lambda>i. (Worker 0, task_index ?s1 + of_nat i)) [0..<?N]\<rparr>)"
    by (rule solo_run) (simp_all add: SIZE_MAX_facts)
  moreover have "?s1\<lparr>task_index := task_index ?s1 + of_nat ?N,
                    calls := calls ?s1
                      @ map (\<lambda>i. (Worker 0, task_index ?s1 + of_nat i)) [0..<?N]\<rparr> = ?s2"
    by (simp add: SIZE_MAX_def)
  ultimately have solo: "run SIZE_MAX (concat (replicate ?N [0, 0])) ?s1 = Some ?s2"
    by (simp only:)
  have last: "run SIZE_MAX [0] ?s2
              = Some \<lparr>task_index = 0, workers = [Finished, Finished], calls = ?cs\<rparr>"
    by (simp add: worker_step_def SIZE_MAX_facts)
  show ?thesis
    by (rule run_chain[OF pre]) (rule run_chain[OF solo], rule last)
qed

text \<open>
  Claim C2 (every index of \<open>[start, end)\<close> is processed exactly once before the call
  returns) fails on the code when \<open>end\<close> is within the number of workers of
  \<open>2^64\<close>: every worker increments the cursor once more after the range is used up,
  the cursor wraps to 0, and a worker that is still running sees \<open>0 < end\<close>. For
  \<open>start = 2^64 - 2\<close>, \<open>end = 2^64 - 1\<close> and two workers, with the schedule below the
  call returns after worker 0 has processed \<open>2^64 - 2\<close>, then 0, 1, 2, ... and
  \<open>2^64 - 2\<close> a second time.
\<close>

theorem C2_seize_cursor_wraps:
  "parallel_for_seize debug 2
     ([0, 0, 1] @ concat (replicate 18446744073709551615 [0, 0]) @ [0])
     18446744073709551614 18446744073709551615
   = Returned ((Worker 0, 18446744073709551614)
               # map (\<lambda>i. (Worker 0, word_of_nat i)) [0..<18446744073709551615])
   \<and> map (\<lambda>i. (Worker 0, word_of_nat i :: size_t)) [0..<18446744073709551615] ! 0
       = (Worker 0, 0)
   \<and> map (\<lambda>i. (Worker 0, word_of_nat i :: size_t)) [0..<18446744073709551615]
         ! 18446744073709551614
       = (Worker 0, 18446744073709551614)"
proof -
  have a: "SIZE_MAX - 1 = 18446744073709551614" by (simp add: SIZE_MAX_def)
  note r = wrapped_run_after_range[simplified a, unfolded SIZE_MAX_def]
  have lt: "(18446744073709551614 :: size_t) < 18446744073709551615" by simp
  have "parallel_for_seize debug 2
          ([0, 0, 1] @ concat (replicate 18446744073709551615 [0, 0]) @ [0])
          18446744073709551614 18446744073709551615
        = Returned ((Worker 0, 18446744073709551614)
                    # map (\<lambda>i. (Worker 0, word_of_nat i)) [0..<18446744073709551615])"
    unfolding parallel_for_seize_def Let_def two_workers list.map r using lt by simp
  then show ?thesis by simp
qed

lemma wrapped_run_on_empty_range:
  "run SIZE_MAX ([0] @ concat (replicate 18446744073709551615 [1, 1]) @ [1])
       \<lparr>task_index = SIZE_MAX, workers = [Fetching, Fetching], calls = []\<rparr>
   = Some \<lparr>task_index = 0, workers = [Finished, Finished],
           calls = map (\<lambda>i. (Worker 1, word_of_nat i)) [0..<18446744073709551615]\<rparr>"
proof -
  let ?N = "18446744073709551615 :: nat"
  let ?s1 = "\<lparr>task_index = 0, workers = [Finished, Fetching], calls = []\<rparr>"
  let ?cs = "map (\<lambda>i. (Worker 1, word_of_nat i :: size_t)) [0..<?N]"
  let ?s2 = "\<lparr>task_index = SIZE_MAX, workers = [Finished, Fetching], calls = ?cs\<rparr>"
  have pre: "run SIZE_MAX [0]
               \<lparr>task_index = SIZE_MAX, workers = [Fetching, Fetching], calls = []\<rparr> = Some ?s1"
    by (simp add: worker_step_def SIZE_MAX_facts)
  have "run SIZE_MAX (concat (replicate ?N [1, 1])) ?s1
        = Some (?s1\<lparr>task_index := task_index ?s1 + of_nat ?N,
                    calls := calls ?s1
                      @ map (\<lambda>i. (Worker 1, task_index ?s1 + of_nat i)) [0..<?N]\<rparr>)"
    by (rule solo_run) (simp_all add: SIZE_MAX_facts)
  moreover have "?s1\<lparr>task_index := task_index ?s1 + of_nat ?N,
                    calls := calls ?s1
                      @ map (\<lambda>i. (Worker 1, task_index ?s1 + of_nat i)) [0..<?N]\<rparr> = ?s2"
    by (simp add: SIZE_MAX_def)
  ultimately have solo: "run SIZE_MAX (concat (replicate ?N [1, 1])) ?s1 = Some ?s2"
    by (simp only:)
  have last: "run SIZE_MAX [1] ?s2
              = Some \<lparr>task_index = 0, workers = [Finished, Finished], calls = ?cs\<rparr>"
    by (simp add: worker_step_def SIZE_MAX_facts)
  show ?thesis
    by (rule run_chain[OF pre]) (rule run_chain[OF solo], rule last)
qed

text \<open>
  Claim C7 (a dispatch with \<open>start > end\<close> is a no-op, one with \<open>start = end\<close>
  processes no work unit) fails on the code for \<open>start = end = 2^64 - 1\<close> with the
  \<open>PARALLEL\<close> policy on two hardware threads: the entry point only filters
  \<open>start > end\<close> and hands \<open>start = end\<close> to the atomic-seize strategy (whose own
  \<open>DCHECK(start < end)\<close> excludes it); the first \<open>fetch_add\<close> wraps the cursor to 0
  and the second worker processes index 0 and the \<open>2^64 - 2\<close> indices after it.
\<close>

theorem C7_equal_bounds_at_SIZE_MAX:
  "parallelFor False 2 [0, 1, 1] 18446744073709551615 18446744073709551615 PARALLEL
   = Blocked [(Worker 1, 0)]
   \<and> parallelFor False 2 ([0] @ concat (replicate 18446744073709551615 [1, 1]) @ [1])
       18446744073709551615 18446744073709551615 PARALLEL
     = Returned (map (\<lambda>i. (Worker 1, word_of_nat i)) [0..<18446744073709551615])
   \<and> length (map (\<lambda>i. (Worker 1, word_of_nat i :: size_t)) [0..<18446744073709551615])
     = 18446744073709551615"
proof -
  note r = wrapped_run_on_empty_range[unfolded SIZE_MAX_def]
  have short: "parallelFor False 2 [0, 1, 1] 18446744073709551615 18446744073709551615 PARALLEL
               = Blocked [(Worker 1, 0)]"
    by (simp add: parallelFor_def parallel_for_seize_def Let_def two_workers worker_step_def)
  have full: "parallelFor False 2 ([0] @ concat (replicate 18446744073709551615 [1, 1]) @ [1])
                18446744073709551615 18446744073709551615 PARALLEL
              = Returned (map (\<lambda>i. (Worker 1, word_of_nat i)) [0..<18446744073709551615])"
    unfolding parallelFor_def parallel_for_seize_def Let_def two_workers list.map r by simp
  show ?thesis using short full by simp
qed

text \<open>What does hold of the entry point for these bounds: reversed bounds return at
  once under both policies; equal bounds process nothing under \<open>SERIAL\<close>; equal
  bounds under \<open>PARALLEL\<close> fail the \<open>DCHECK\<close> of a debug build.\<close>

lemma parallelFor_reversed_bounds:
  "end < start \<Longrightarrow> parallelFor debug hw schedule start end policy = Returned []"
  by (simp add: parallelFor_def)

lemma parallelFor_equal_bounds_SERIAL:
  "parallelFor debug hw schedule start start SERIAL = Returned []"
  by (simp add: parallelFor_def size_range.simps[of start start])

lemma parallelFor_equal_bounds_debug:
  "parallelFor True hw schedule start start PARALLEL = Aborted"
  by (simp add: parallelFor_def parallel_for_seize_def)

subsection \<open>Atomic seize when the cursor cannot wrap\<close>

text \<open>Away from the top of \<open>size_t\<close> the strategy does what claim C2 says. If
  \<open>max start end\<close> plus the number of workers does not exceed \<open>2^64\<close>, the invariant
  holds along every schedule (\<open>seize_run\<close>); hence every run that returns has
  invoked the callback exactly on the indices of the serial loop, each once
  (\<open>seize_exactly_once\<close>); no schedule is longer than twice the size of the range plus
  the number of workers (\<open>seize_bounded\<close>); and some schedule returns
  (\<open>seize_returns\<close>).\<close>

lemma holding_simps [simp]:
  "holding Fetching = []" "holding (Calling i) = [i]" "holding Finished = []"
  by (simp_all add: holding_def)

lemma in_flight_simps [simp]:
  "in_flight [] = []" "in_flight (w # ws) = holding w @ in_flight ws"
  by (simp_all add: in_flight_def)

lemma in_flight_update:
  "j < length ws \<Longrightarrow>
   mset (in_flight (ws[j := w])) + mset (holding (ws ! j)) = mset (in_flight ws) + mset (holding w)"
proof (induction ws arbitrary: j)
  case Nil
  then show ?case by simp
next
  case (Cons a ws)
  show ?case
  proof (cases j)
    case 0
    then show ?thesis by simp
  next
    case (Suc i)
    with Cons.prems have "i < length ws" by simp
    from Cons.IH[OF this] Suc show ?thesis by (simp add: ac_simps)
  qed
qed

lemma count_update:
  "j < length ws \<Longrightarrow>
   count_list (ws[j := w]) x + (if ws ! j = x then 1 else 0)
   = count_list ws x + (if w = x then 1 else 0)"
proof (induction ws arbitrary: j)
  case Nil
  then show ?case by simp
next
  case (Cons a ws)
  show ?case
  proof (cases j)
    case 0
    then show ?thesis by simp
  next
    case (Suc i)
    with Cons.prems have "i < length ws" by simp
    from Cons.IH[OF this] Suc show ?thesis by (auto split: if_splits)
  qed
qed

lemma count_le_length: "count_list ws x \<le> length ws"
  by (induction ws) auto

lemma count_lt_length: "j < length ws \<Longrightarrow> ws ! j \<noteq> x \<Longrightarrow> count_list ws x < length ws"
proof (induction ws arbitrary: j)
  case Nil
  then show ?case by simp
next
  case (Cons a ws)
  show ?case
  proof (cases j)
    case 0
    with Cons.prems show ?thesis using count_le_length[of ws x] by simp
  next
    case (Suc i)
    with Cons.prems have "count_list ws x < length ws" by (intro Cons.IH[of i]) simp_all
    then show ?thesis by simp
  qed
qed

lemma length_in_flight_update:
  "j < length ws \<Longrightarrow>
   length (in_flight (ws[j := w])) + length (holding (ws ! j))
   = length (in_flight ws) + length (holding w)"
  using in_flight_update[of j ws w, THEN arg_cong[where f = size]] by simp

lemma unat_start_plus:
  "unat (start :: size_t) + n < 2 ^ 64 \<Longrightarrow> unat (start + of_nat n) = unat start + n"
proof -
  assume b: "unat start + n < 2 ^ 64"
  then have n: "n < 2 ^ LENGTH(64)" by simp
  have "unat (of_nat n :: size_t) = n"
    using n by (simp add: unat_of_nat take_bit_nat_eq_self)
  moreover from this b have "unat start + unat (of_nat n :: size_t) < 2 ^ LENGTH(64)" by simp
  then have "unat (start + of_nat n) = unat start + unat (of_nat n :: size_t)"
    by (simp only: unat_add_lem)
  ultimately show ?thesis by simp
qed

lemma seize_invI:
  assumes "h = length (calls s) + length (in_flight (workers s))"
    and "m = count_list (workers s) Finished"
    and "task_index s = start + of_nat (h + m)"
    and "unat start + h \<le> max (unat start) (unat e)"
    and "m = 0 \<or> unat start + h = max (unat start) (unat e)"
    and "mset (map snd (calls s)) + mset (in_flight (workers s))
         = mset (map (\<lambda>k. start + of_nat k) [0..<h])"
  shows "seize_inv start e s"
  unfolding seize_inv_def Let_def assms(1)[symmetric] assms(2)[symmetric]
  using assms(3-6) by simp

lemma seize_step:
  assumes inv: "seize_inv start e s"
    and nowrap: "max (unat start) (unat e) + length (workers s) \<le> 2 ^ 64"
    and step: "worker_step e j s = Some s'"
  shows "seize_inv start e s' \<and> length (workers s') = length (workers s)
         \<and> progress s' = Suc (progress s)"
proof -
  define ws where "ws = workers s"
  define h where "h = length (calls s) + length (in_flight ws)"
  define m where "m = count_list ws Finished"
  define E where "E = max (unat start) (unat e)"
  from step have j: "j < length ws" and nf: "ws ! j \<noteq> Finished"
    by (auto simp: worker_step_def ws_def split: if_splits worker.splits)
  from inv have ti: "task_index s = start + of_nat (h + m)"
    and le: "unat start + h \<le> E"
    and fin: "m = 0 \<or> unat start + h = E"
    and ms: "mset (map snd (calls s)) + mset (in_flight ws)
             = mset (map (\<lambda>k. start + of_nat k) [0..<h])"
    by (simp_all add: seize_inv_def Let_def ws_def h_def m_def E_def)
  show ?thesis
  proof (cases "ws ! j")
    case Fetching
    have mlt: "m < length ws" unfolding m_def using count_lt_length[OF j nf] .
    have small: "unat start + (h + m) < 2 ^ 64"
      using le mlt nowrap unfolding E_def ws_def by linarith
    have ut: "unat (task_index s) = unat start + (h + m)"
      using unat_start_plus[OF small] ti by simp
    show ?thesis
    proof (cases "task_index s < e")
      case True
      then have lt: "unat start + (h + m) < unat e" using ut by (simp add: word_less_nat_alt)
      have eE: "unat e \<le> E" by (simp add: E_def)
      from fin lt eE have m0: "m = 0" by linarith
      have s': "s' = s\<lparr>task_index := task_index s + 1,
                         workers := ws[j := Calling (task_index s)]\<rparr>"
        using step j Fetching True by (simp add: worker_step_def Let_def ws_def)
      have fl: "mset (in_flight (ws[j := Calling (task_index s)]))
                = mset (in_flight ws) + {#task_index s#}"
        using in_flight_update[OF j, of "Calling (task_index s)"] Fetching by simp
      have ln: "length (in_flight (ws[j := Calling (task_index s)])) = Suc (length (in_flight ws))"
        using length_in_flight_update[OF j, of "Calling (task_index s)"] Fetching by simp
      have cn: "count_list (ws[j := Calling (task_index s)]) Finished = m"
        using count_update[OF j, of "Calling (task_index s)" Finished] Fetching
        by (simp add: m_def)
      have "seize_inv start e s'"
      proof (rule seize_invI[where h = "Suc h" and m = m])
        show "Suc h = length (calls s') + length (in_flight (workers s'))"
          by (simp add: s' ln h_def)
        show "m = count_list (workers s') Finished" by (simp add: s' cn)
        show "task_index s' = start + of_nat (Suc h + m)" by (simp add: s' ti)
        show "unat start + Suc h \<le> max (unat start) (unat e)"
          using lt eE unfolding E_def by linarith
        show "m = 0 \<or> unat start + Suc h = max (unat start) (unat e)" using m0 by simp
        have "mset (map snd (calls s')) + mset (in_flight (workers s'))
              = (mset (map snd (calls s)) + mset (in_flight ws)) + {#task_index s#}"
          by (simp add: s' fl)
        also have "\<dots> = mset (map (\<lambda>k. start + of_nat k) [0..<h]) + {#start + of_nat h#}"
          using ms ti m0 by simp
        also have "\<dots> = mset (map (\<lambda>k. start + of_nat k) [0..<Suc h])" by simp
        finally show "mset (map snd (calls s')) + mset (in_flight (workers s'))
                      = mset (map (\<lambda>k. start + of_nat k) [0..<Suc h])" .
      qed
      moreover have "progress s' = Suc (progress s)"
        unfolding progress_def s' using ln cn by (simp add: ws_def[symmetric] m_def)
      ultimately show ?thesis by (simp add: s' ws_def)
    next
      case False
      then have ge: "unat e \<le> unat start + (h + m)" using ut by (simp add: word_less_nat_alt)
      have s': "s' = s\<lparr>task_index := task_index s + 1, workers := ws[j := Finished]\<rparr>"
        using step j Fetching False by (simp add: worker_step_def Let_def ws_def)
      have fl: "mset (in_flight (ws[j := Finished])) = mset (in_flight ws)"
        using in_flight_update[OF j, of Finished] Fetching by simp
      have ln: "length (in_flight (ws[j := Finished])) = length (in_flight ws)"
        using length_in_flight_update[OF j, of Finished] Fetching by simp
      have cn: "count_list (ws[j := Finished]) Finished = Suc m"
        using count_update[OF j, of Finished Finished] Fetching by (simp add: m_def)
      have full: "unat start + h = E"
        using fin ge le unfolding E_def by (cases "m = 0") (auto simp: max_def)
      have "seize_inv start e s'"
      proof (rule seize_invI[where h = h and m = "Suc m"])
        show "h = length (calls s') + length (in_flight (workers s'))"
          by (simp add: s' ln h_def)
        show "Suc m = count_list (workers s') Finished" by (simp add: s' cn)
        show "task_index s' = start + of_nat (h + Suc m)" by (simp add: s' ti)
        show "unat start + h \<le> max (unat start) (unat e)" using le by (simp add: E_def)
        show "Suc m = 0 \<or> unat start + h = max (unat start) (unat e)"
          using full by (simp add: E_def)
        show "mset (map snd (calls s')) + mset (in_flight (workers s'))
              = mset (map (\<lambda>k. start + of_nat k) [0..<h])"
          using ms by (simp add: s' fl)
      qed
      moreover have "progress s' = Suc (progress s)"
        unfolding progress_def s' using ln cn by (simp add: ws_def[symmetric] m_def)
      ultimately show ?thesis by (simp add: s' ws_def)
    qed
  next
    case (Calling i)
    have s': "s' = s\<lparr>workers := ws[j := Fetching], calls := calls s @ [(Worker j, i)]\<rparr>"
      using step j Calling by (simp add: worker_step_def ws_def)
    have fl: "mset (in_flight (ws[j := Fetching])) + {#i#} = mset (in_flight ws)"
      using in_flight_update[OF j, of Fetching] Calling by simp
    have ln: "Suc (length (in_flight (ws[j := Fetching]))) = length (in_flight ws)"
      using length_in_flight_update[OF j, of Fetching] Calling by simp
    have cn: "count_list (ws[j := Fetching]) Finished = m"
      using count_update[OF j, of Fetching Finished] Calling by (simp add: m_def)
    have "seize_inv start e s'"
    proof (rule seize_invI[where h = h and m = m])
      show "h = length (calls s') + length (in_flight (workers s'))"
        using ln by (simp add: s' h_def)
      show "m = count_list (workers s') Finished" by (simp add: s' cn)
      show "task_index s' = start + of_nat (h + m)" by (simp add: s' ti)
      show "unat start + h \<le> max (unat start) (unat e)" using le by (simp add: E_def)
      show "m = 0 \<or> unat start + h = max (unat start) (unat e)" using fin by (simp add: E_def)
      have "mset (map snd (calls s')) + mset (in_flight (workers s'))
            = mset (map snd (calls s)) + (mset (in_flight (ws[j := Fetching])) + {#i#})"
        by (simp add: s')
      also have "\<dots> = mset (map snd (calls s)) + mset (in_flight ws)" by (simp only: fl)
      finally show "mset (map snd (calls s')) + mset (in_flight (workers s'))
                    = mset (map (\<lambda>k. start + of_nat k) [0..<h])"
        using ms by simp
    qed
    moreover have "progress s' = Suc (progress s)"
      unfolding progress_def s' using ln cn by (simp add: ws_def[symmetric] m_def)
    ultimately show ?thesis by (simp add: s' ws_def)
  next
    case Finished
    with nf show ?thesis by simp
  qed
qed

lemma seize_run:
  "run e sched s = Some s' \<Longrightarrow> seize_inv start e s \<Longrightarrow>
   max (unat start) (unat e) + length (workers s) \<le> 2 ^ 64 \<Longrightarrow>
   seize_inv start e s' \<and> length (workers s') = length (workers s)
   \<and> progress s' = progress s + length sched"
proof (induction sched arbitrary: s)
  case Nil
  then show ?case by simp
next
  case (Cons j js)
  from Cons.prems(1) obtain s1 where
    st: "worker_step e j s = Some s1" and rest: "run e js s1 = Some s'"
    by (auto split: option.splits)
  from seize_step[OF Cons.prems(2,3) st] have
    i1: "seize_inv start e s1" and l1: "length (workers s1) = length (workers s)"
    and p1: "progress s1 = Suc (progress s)" by simp_all
  from Cons.IH[OF rest i1] Cons.prems(3) l1 p1 show ?case by simp
qed

lemma progress_bound:
  assumes "seize_inv start e s"
  shows "progress s \<le> 2 * (unat e - unat start) + length (workers s)"
proof -
  have "unat start + (length (calls s) + length (in_flight (workers s)))
        \<le> max (unat start) (unat e)"
    using assms by (simp add: seize_inv_def Let_def)
  moreover have "count_list (workers s) Finished \<le> length (workers s)"
    by (rule count_le_length)
  ultimately show ?thesis unfolding progress_def by (auto simp: max_def split: if_splits)
qed

lemma finished_all:
  "list_all (\<lambda>w. w = Finished) ws \<Longrightarrow> in_flight ws = [] \<and> count_list ws Finished = length ws"
  by (induction ws) auto

lemma not_finished_all:
  "\<not> list_all (\<lambda>w. w = Finished) ws \<Longrightarrow> \<exists>j < length ws. ws ! j \<noteq> Finished"
  by (auto simp: list_all_length)

lemma step_enabled:
  "j < length (workers s) \<Longrightarrow> workers s ! j \<noteq> Finished \<Longrightarrow> \<exists>s'. worker_step e j s = Some s'"
  by (cases "workers s ! j") (auto simp: worker_step_def Let_def)

lemma seize_completes:
  "seize_inv start e s \<Longrightarrow> max (unat start) (unat e) + length (workers s) \<le> 2 ^ 64 \<Longrightarrow>
   \<exists>sched s'. run e sched s = Some s' \<and> list_all (\<lambda>w. w = Finished) (workers s')"
proof (induction "2 * (unat e - unat start) + length (workers s) - progress s"
        arbitrary: s rule: less_induct)
  case less
  show ?case
  proof (cases "list_all (\<lambda>w. w = Finished) (workers s)")
    case True
    then have "run e [] s = Some s \<and> list_all (\<lambda>w. w = Finished) (workers s)" by simp
    then show ?thesis by blast
  next
    case False
    then obtain j where j: "j < length (workers s)" "workers s ! j \<noteq> Finished"
      using not_finished_all by blast
    then obtain s1 where st: "worker_step e j s = Some s1"
      using step_enabled by blast
    from seize_step[OF less.prems st] have
      i1: "seize_inv start e s1" and l1: "length (workers s1) = length (workers s)"
      and p1: "progress s1 = Suc (progress s)" by simp_all
    have "progress s1 \<le> 2 * (unat e - unat start) + length (workers s1)"
      using progress_bound[OF i1] .
    then have "2 * (unat e - unat start) + length (workers s1) - progress s1
               < 2 * (unat e - unat start) + length (workers s) - progress s"
      using l1 p1 by simp
    from less.hyps[OF this i1] less.prems(2) l1 obtain sched s' where
      "run e sched s1 = Some s'" "list_all (\<lambda>w. w = Finished) (workers s')" by auto
    then have "run e (j # sched) s = Some s' \<and> list_all (\<lambda>w. w = Finished) (workers s')"
      using st by simp
    then show ?thesis by blast
  qed
qed

lemma length_int_range: "length (int_range a b) = nat (sint b - sint a)"
proof (induction a b rule: int_range.induct)
  case (1 v b)
  show ?case
  proof (cases "v <s b")
    case True
    then have lt: "sint v < sint b" by (simp add: word_sless_alt)
    have "sint b < 2 ^ 31" using sint_lt[of b] by simp
    moreover have "- (2 ^ 31) \<le> sint v" using sint_ge[of v] by simp
    ultimately have "sint (v + 1) = sint v + 1"
      using lt by (simp add: sint_word_add signed_take_bit_int_eq_self)
    with "1.IH"[OF True] True lt show ?thesis
      by (subst int_range.simps) simp
  next
    case False
    then show ?thesis by (subst int_range.simps) (simp add: word_sless_alt)
  qed
qed

lemma size_range_eq: "size_range i e = map (\<lambda>k. i + of_nat k) [0..<unat e - unat i]"
proof (induction i e rule: size_range.induct)
  case (1 i e)
  show ?case
  proof (cases "i < e")
    case True
    then have u: "unat (i + 1) = Suc (unat i)" by (rule unat_plus_one)
    from True have lt: "unat i < unat e" by (simp add: word_less_nat_alt)
    then have d: "unat e - unat i = Suc (unat e - Suc (unat i))" by simp
    have "size_range i e = i # size_range (i + 1) e"
      using True by (subst size_range.simps) simp
    also have "\<dots> = i # map (\<lambda>k. i + 1 + of_nat k) [0..<unat e - Suc (unat i)]"
      using "1.IH"[OF True] u by simp
    also have "\<dots> = map (\<lambda>k. i + of_nat k) [0..<unat e - unat i]"
      unfolding d by (simp add: upt_conv_Cons map_Suc_upt[symmetric] add.assoc del: upt_Suc)
    finally show ?thesis .
  next
    case False
    then have "unat e - unat i = 0" by (simp add: word_less_nat_alt)
    with False show ?thesis by (subst size_range.simps) simp
  qed
qed

lemma seize_init:
  "seize_inv start e \<lparr>task_index = start, workers = map (\<lambda>j. Fetching) xs, calls = []\<rparr>
   \<and> progress \<lparr>task_index = start, workers = map (\<lambda>j. Fetching) xs, calls = []\<rparr> = 0"
proof -
  have "in_flight (map (\<lambda>j. Fetching) xs) = []" by (induction xs) auto
  moreover have "count_list (map (\<lambda>j. Fetching) xs) Finished = 0" by (induction xs) auto
  ultimately show ?thesis by (simp add: seize_inv_def progress_def)
qed

lemma seize_exactly_once:
  assumes nowrap: "max (unat start) (unat e) + nat (sint (numSystemCores hw)) \<le> 2 ^ 64"
    and some: "0 <s numSystemCores hw"
    and ret: "parallel_for_seize debug hw sched start e = Returned cs"
  shows "mset (map snd cs) = mset (size_range start e)"
proof -
  let ?init = "\<lparr>task_index = start,
                 workers = map (\<lambda>j. Fetching) (int_range 0 (numSystemCores hw)), calls = []\<rparr>"
  have T: "length (workers ?init) = nat (sint (numSystemCores hw))"
    by (simp add: length_int_range)
  from some have pos: "0 < nat (sint (numSystemCores hw))" by (simp add: word_sless_alt)
  from ret obtain s where r: "run e sched ?init = Some s"
    and fin: "list_all (\<lambda>w. w = Finished) (workers s)" and cs: "cs = calls s"
    by (auto simp: parallel_for_seize_def Let_def split: if_splits option.splits)
  have "seize_inv start e ?init" using seize_init by blast
  from seize_run[OF r this] nowrap T have inv: "seize_inv start e s"
    and len: "length (workers s) = nat (sint (numSystemCores hw))" by simp_all
  from finished_all[OF fin] have nf: "in_flight (workers s) = []"
    and m: "count_list (workers s) Finished = length (workers s)" by simp_all
  from inv nf m len pos have
    full: "unat start + length (calls s) = max (unat start) (unat e)"
    and ms: "mset (map snd (calls s))
             = mset (map (\<lambda>k. start + of_nat k) [0..<length (calls s)])"
    by (simp_all add: seize_inv_def Let_def)
  from full have "length (calls s) = unat e - unat start" by (simp add: max_def split: if_splits)
  with ms show ?thesis by (simp add: cs size_range_eq)
qed

lemma seize_bounded:
  assumes nowrap: "max (unat start) (unat e) + nat (sint (numSystemCores hw)) \<le> 2 ^ 64"
    and ret: "parallel_for_seize debug hw sched start e = Returned cs
              \<or> parallel_for_seize debug hw sched start e = Blocked cs"
  shows "length sched \<le> 2 * (unat e - unat start) + nat (sint (numSystemCores hw))"
proof -
  let ?init = "\<lparr>task_index = start,
                 workers = map (\<lambda>j. Fetching) (int_range 0 (numSystemCores hw)), calls = []\<rparr>"
  have T: "length (workers ?init) = nat (sint (numSystemCores hw))"
    by (simp add: length_int_range)
  from ret obtain s where r: "run e sched ?init = Some s"
    by (auto simp: parallel_for_seize_def Let_def split: if_splits option.splits)
  have i0: "seize_inv start e ?init" and p0: "progress ?init = 0" using seize_init by blast+
  from seize_run[OF r i0] nowrap T p0 have inv: "seize_inv start e s"
    and len: "length (workers s) = nat (sint (numSystemCores hw))"
    and pr: "progress s = length sched" by simp_all
  from progress_bound[OF inv] len pr show ?thesis by simp
qed

lemma seize_returns:
  assumes nowrap: "max (unat start) (unat e) + nat (sint (numSystemCores hw)) \<le> 2 ^ 64"
    and ok: "debug \<longrightarrow> start < e"
  shows "\<exists>sched cs. parallel_for_seize debug hw sched start e = Returned cs"
proof -
  let ?init = "\<lparr>task_index = start,
                 workers = map (\<lambda>j. Fetching) (int_range 0 (numSystemCores hw)), calls = []\<rparr>"
  have T: "length (workers ?init) = nat (sint (numSystemCores hw))"
    by (simp add: length_int_range)
  have i0: "seize_inv start e ?init" using seize_init by blast
  from seize_completes[OF i0] nowrap T obtain sched s where
    "run e sched ?init = Some s" "list_all (\<lambda>w. w = Finished) (workers s)" by auto
  then have "parallel_for_seize debug hw sched start e = Returned (calls s)"
    using ok by (auto simp: parallel_for_seize_def Let_def)
  then show ?thesis by blast
qed

lemma parallelFor_equal_bounds_no_wrap:
  assumes "unat start + nat (sint (numSystemCores hw)) \<le> 2 ^ 64"
    and "0 <s numSystemCores hw"
    and "parallelFor False hw schedule start start PARALLEL = Returned cs"
  shows "cs = []"
proof -
  from assms(3) have "parallel_for_seize False hw schedule start start = Returned cs"
    by (simp add: parallelFor_def)
  from seize_exactly_once[OF _ assms(2) this] assms(1)
  have "mset (map snd cs) = mset (size_range start start)" by simp
  then show ?thesis by (simp add: size_range.simps[of start start])
qed

subsection \<open>The PARALLEL policy and the atomic-seize strategy\<close>

text \<open>
  Claim C10, as amended. For \<open>start \<le> end\<close> a dispatch with the \<open>PARALLEL\<close> policy
  is the atomic-seize strategy on the same arguments (same outcome under every
  schedule; the static split is not involved). For \<open>start > end\<close> the dispatch
  returns at once without calling any strategy.
\<close>

theorem C10_parallel_dispatch:
  "(start \<le> end \<longrightarrow>
      parallelFor debug hw schedule start end PARALLEL
      = parallel_for_seize debug hw schedule start end)
   \<and> (end < start \<longrightarrow> parallelFor debug hw schedule start end PARALLEL = Returned [])"
  by (auto simp add: parallelFor_def)

theorem C10_parallel_dispatch_witness:
  "(0 :: size_t) \<le> 2
   \<and> parallelFor False 2 [0, 1, 1, 0, 1, 0] 0 2 PARALLEL
     = parallel_for_seize False 2 [0, 1, 1, 0, 1, 0] 0 2
   \<and> parallel_for_seize False 2 [0, 1, 1, 0, 1, 0] 0 2
     = Returned [(Worker 1, 1), (Worker 0, 0)]
   \<and> (0 :: size_t) < 2
   \<and> parallelFor False 2 [0, 1, 1, 0, 1, 0] 2 0 PARALLEL = Returned []"
  using C10_parallel_dispatch[of 0 2 False 2 "[0, 1, 1, 0, 1, 0]"]
    C10_parallel_dispatch[of 2 0 False 2 "[0, 1, 1, 0, 1, 0]"]
  by (simp add: parallel_for_seize_def Let_def two_workers worker_step_def)

text \<open>
  Claim C10 as stated (for every \<open>start\<close> and \<open>end\<close>) fails for \<open>start > end\<close>: the
  entry point returns without a call, where the strategy called directly with
  \<open>start = 2^64 - 1\<close>, \<open>end = 1\<close> invokes the callback on index 0 (the cursor
  wraps), and in a debug build fails its \<open>DCHECK\<close>.
\<close>

theorem C10_reversed_bounds_counterexample:
  "parallelFor False 2 [0, 1, 1, 1] 18446744073709551615 1 PARALLEL = Returned []
   \<and> parallel_for_seize False 2 [0, 1, 1, 1] 18446744073709551615 1 = Returned [(Worker 1, 0)]
   \<and> parallelFor True 2 [] 1 0 PARALLEL = Returned []
   \<and> parallel_for_seize True 2 [] 1 0 = Aborted"
  by (simp add: parallelFor_def parallel_for_seize_def Let_def two_workers worker_step_def)

section \<open>Properties of the Lambertian material\<close>

text \<open>
  Claim C9. For every surface interaction, arena and flags,
  \<open>computeScatteringFunctions\<close> attaches to the interaction a scattering-model
  container that it has just allocated in the given arena (the objects already in the
  arena stay as they are). If the reflectance is black the container holds no lobe;
  otherwise it holds exactly one lobe, a Lambertian reflection allocated in the same
  arena and carrying the material's reflectance.
\<close>

theorem C9_lambertian_scattering:
  "case computeScatteringFunctions isBlack mat si arena mode multi of (si', arena') \<Rightarrow>
     take (length arena) arena' = arena
     \<and> bsdf si' = Some (length arena)
     \<and> length arena < length arena'
     \<and> (isBlack (m_Kr mat) \<longrightarrow>
          arena' = arena @ [BSDF_object (geometry si) []])
     \<and> (\<not> isBlack (m_Kr mat) \<longrightarrow>
          arena' = arena @ [BSDF_object (geometry si) [Suc (length arena)],
                            LambertianReflection_object (m_Kr mat)])"
  by (cases "isBlack (m_Kr mat)")
     (simp_all add: computeScatteringFunctions_def ARENA_ALLOC_def BSDF_add_def Let_def
        nth_append)

theorem C9_lambertian_scattering_witness:
  "computeScatteringFunctions (\<lambda>R. R = (0::nat)) \<lparr>m_Kr = 0\<rparr>
       \<lparr>geometry = (), bsdf = None\<rparr> [] Radiance True
     = (\<lparr>geometry = (), bsdf = Some 0\<rparr>, [BSDF_object () []])
   \<and> computeScatteringFunctions (\<lambda>R. R = (0::nat)) \<lparr>m_Kr = 7\<rparr>
       \<lparr>geometry = (), bsdf = None\<rparr> [] Importance False
     = (\<lparr>geometry = (), bsdf = Some 0\<rparr>,
        [BSDF_object () [1], LambertianReflection_object 7])"
  using C9_lambertian_scattering[where isBlack = "\<lambda>R. R = (0::nat)" and mat = "\<lparr>m_Kr = 0\<rparr>"
          and si = "\<lparr>geometry = (), bsdf = None\<rparr>" and arena = "[]"
          and mode = Radiance and multi = True]
        C9_lambertian_scattering[where isBlack = "\<lambda>R. R = (0::nat)" and mat = "\<lparr>m_Kr = 7\<rparr>"
          and si = "\<lparr>geometry = (), bsdf = None\<rparr>" and arena = "[]"
          and mode = Importance and multi = False]
  by (auto split: prod.splits)

end
